theory Spec2Isabelle
  imports Main "HOL-Library.Word" "HOL-Library.Multiset"
begin

unbundle bit_operations_syntax

section \<open>The snapshot engine of the Ceph kernel client (kernel/snap.c)\<close>

text \<open>
  A shallow embedding of \<^verbatim>\<open>src/kernel/snap.c\<close>. Kernel memory is an explicit store:
  realms and inodes live at addresses, a freed realm leaves its address empty for ever,
  and reading through an empty address is a fault. Every function returns either a
  fault or the new state (and the C return value, where there is one). A recursion or
  loop of the source that need not end takes fuel, and \<open>None\<close> says that it did not
  return. Locks, reference counts on VFS inodes and on snap contexts, and the
  \<^verbatim>\<open>dout\<close>/\<^verbatim>\<open>derr\<close> log lines have no effect on the data and are left out.

  The kernel's intrusive lists (\<^verbatim>\<open>struct list_head\<close>) are lists of addresses:
  \<^verbatim>\<open>list_add\<close> puts an entry in front, \<^verbatim>\<open>list_add_tail\<close> at the end, and
  \<^verbatim>\<open>list_del_init\<close> takes it out of the list of the owner that the entry's struct
  records (a realm's parent, an inode's realm).

  An inode has one \<^verbatim>\<open>i_snap_flush_item\<close>, so it is on the client's snap flush list at
  most once. \<^verbatim>\<open>list_add_tail\<close> of an item that is linked already does not give a
  list: the item is left as its own successor (or cuts the entries behind it off),
  and the loop of \<^verbatim>\<open>flush_snaps\<close> over such a list need not end. The model stops at
  that point with the fault \<open>List_corrupt\<close>.
\<close>

subsection \<open>Data\<close>

type_synonym u64 = "64 word"
type_synonym u32 = "32 word"
type_synonym s32 = "32 word"  \<comment> \<open>a C \<^verbatim>\<open>int\<close>; \<open>sint\<close> reads it\<close>
type_synonym rptr = nat       \<comment> \<open>address of a \<^verbatim>\<open>struct ceph_snap_realm\<close>\<close>
type_synonym iptr = nat       \<comment> \<open>address of a \<^verbatim>\<open>struct ceph_inode_info\<close>\<close>
type_synonym timespec = "u64 \<times> u64"

datatype fault =
    BUG              \<comment> \<open>\<^verbatim>\<open>BUG_ON\<close> fired\<close>
  | Null_deref       \<comment> \<open>a NULL pointer was dereferenced\<close>
  | Bad_pointer      \<comment> \<open>a pointer to freed or unallocated memory was dereferenced\<close>
  | Out_of_bounds    \<comment> \<open>a read outside the array or message buffer\<close>
  | List_corrupt     \<comment> \<open>an entry that is on its list already was added to it again\<close>

text \<open>\<^verbatim>\<open>struct ceph_snap_context\<close>: \<^verbatim>\<open>num_snaps\<close> is the length of \<open>sc_snaps\<close>.\<close>

record snap_context =
  sc_seq :: u64
  sc_snaps :: "u64 list"

text \<open>
  \<^verbatim>\<open>struct ceph_cap_snap\<close>; the fields carry the prefix \<open>cs_\<close>. \<^verbatim>\<open>ci_item\<close> is the
  position in the inode's \<open>i_cap_snaps\<close>.
\<close>

record cap_snap =
  cs_follows :: u64
  cs_context :: "snap_context option"
  cs_issued :: s32
  cs_dirty :: s32
  cs_size :: u64
  cs_mtime :: timespec
  cs_atime :: timespec
  cs_ctime :: timespec
  cs_time_warp_seq :: u32
  cs_writing :: bool

text \<open>
  \<^verbatim>\<open>struct ceph_inode_info\<close> with the fields of its \<^verbatim>\<open>vfs_inode\<close> that snap.c reads.
  \<^verbatim>\<open>i_snap_realm_item\<close> is the membership in a realm's \<open>inodes_with_caps\<close>,
  \<^verbatim>\<open>i_snap_flush_item\<close> the membership in the client's \<open>snap_flush_list\<close>.
\<close>

record inode_info =
  i_size :: u64
  i_mtime :: timespec
  i_atime :: timespec
  i_ctime :: timespec
  i_time_warp_seq :: u32
  i_wrbuffer_ref_head :: s32
  i_cap_snaps :: "cap_snap list"
  i_snap_realm :: "rptr option"

text \<open>
  \<^verbatim>\<open>struct ceph_snap_realm\<close>. The kernel's intrusive lists are lists of addresses:
  \<^verbatim>\<open>child_item\<close> is the membership in the parent's \<open>children\<close>.
\<close>

record snap_realm =
  ino :: u64
  nref :: s32
  seq :: u64
  created :: u64
  parent_ino :: u64
  parent_since :: u64
  parent :: "rptr option"
  children :: "rptr list"
  num_snaps :: s32
  snaps :: "u64 list"
  num_prior_parent_snaps :: s32
  prior_parent_snaps :: "u64 list"
  inodes_with_caps :: "iptr list"
  cached_context :: "snap_context option"

text \<open>\<^verbatim>\<open>struct ceph_mds_session\<close>: snap.c touches \<^verbatim>\<open>s_seq\<close> only.\<close>

record mds_session =
  s_seq :: u64

text \<open>
  \<^verbatim>\<open>struct ceph_mds_client\<close> together with the kernel memory it points into.
  \<open>snap_realms\<close> is the radix tree from inode number to realm, \<open>realm_mem\<close> and
  \<open>inode_mem\<close> are the heap, \<open>next_realm\<close> is the address the next realm is
  allocated at, and \<open>alloc_ok\<close> lists the outcomes of the coming calls of
  \<^verbatim>\<open>kzalloc\<close>/\<^verbatim>\<open>kmalloc\<close> (\<open>False\<close>: the call returns NULL; once the list is used
  up every call succeeds).
\<close>

record mds_client =
  snap_realms :: "u64 \<Rightarrow> rptr option"
  realm_mem :: "rptr \<Rightarrow> snap_realm option"
  next_realm :: rptr
  inode_mem :: "iptr \<Rightarrow> inode_info option"
  snap_flush_list :: "iptr list"
  sessions :: "s32 \<Rightarrow> mds_session option"
  alloc_ok :: "bool list"

text \<open>
  What snap.c takes from headers that are not among the sources (super.h, ceph_fs.h,
  msgr.h) or from caps.c, as parameters: the helpers \<^verbatim>\<open>__ceph_caps_used\<close>,
  \<^verbatim>\<open>__ceph_caps_issued\<close>, \<^verbatim>\<open>ceph_find_inode\<close> (at snap \<^verbatim>\<open>CEPH_NOSNAP\<close>) and
  \<^verbatim>\<open>__ceph_flush_snaps\<close>, and the constants.
\<close>

record env =
  caps_used :: "inode_info \<Rightarrow> s32"
  caps_issued :: "inode_info \<Rightarrow> s32"
  find_inode :: "u64 \<Rightarrow> iptr option"
  flush_inode_snaps :: "mds_client \<Rightarrow> iptr \<Rightarrow> fault + mds_client"
  CAP_WR :: s32
  ENTITY_TYPE_MDS :: u32
  SNAP_OP_SPLIT :: s32
  SNAP_OP_DESTROY :: s32

definition ENOMEM :: int where
  "ENOMEM = 12"

definition EINVAL :: int where
  "EINVAL = 22"

subsection \<open>Allocation\<close>

text \<open>One call of \<^verbatim>\<open>kzalloc\<close> or \<^verbatim>\<open>kmalloc\<close>: its outcome and the state after it.\<close>

definition kzalloc :: "mds_client \<Rightarrow> bool \<times> mds_client" where
  "kzalloc mdsc =
     (case alloc_ok mdsc of
        [] \<Rightarrow> (True, mdsc)
      | ok # rest \<Rightarrow> (ok, mdsc\<lparr>alloc_ok := rest\<rparr>))"

subsection \<open>Cap-snaps\<close>

text \<open>A \<^verbatim>\<open>struct ceph_cap_snap\<close> as \<^verbatim>\<open>kzalloc\<close> returns it: every field zero.\<close>

definition zero_cap_snap :: cap_snap where
  "zero_cap_snap =
     \<lparr>cs_follows = 0, cs_context = None, cs_issued = 0, cs_dirty = 0, cs_size = 0,
      cs_mtime = (0, 0), cs_atime = (0, 0), cs_ctime = (0, 0),
      cs_time_warp_seq = 0, cs_writing = False\<rparr>"

text \<open>
  Modelled from the spec: \<^verbatim>\<open>__ceph_have_pending_cap_snap\<close> is declared in super.h,
  which is not among the sources. The spec: "a pending (unfinished, writing == true)
  cap-snap already exists on the inode".
\<close>

definition ceph_have_pending_cap_snap :: "inode_info \<Rightarrow> bool" where
  "ceph_have_pending_cap_snap ci = list_ex cs_writing (i_cap_snaps ci)"

text \<open>
  \<^verbatim>\<open>__ceph_finish_cap_snap(ci, capsnap)\<close>: \<open>k\<close> is the position of \<^verbatim>\<open>capsnap\<close> in the
  inode's cap-snap list. Returns the state and the C return value. The last step is
  \<^verbatim>\<open>list_add_tail(&ci->i_snap_flush_item, &mdsc->snap_flush_list)\<close>, with no test
  whether the item is linked: on an inode that is on the flush list already the list
  is corrupted.
\<close>

definition ceph_finish_cap_snap :: "mds_client \<Rightarrow> iptr \<Rightarrow> nat \<Rightarrow> fault + mds_client \<times> int" where
  "ceph_finish_cap_snap mdsc ci k =
     (case inode_mem mdsc ci of
        None \<Rightarrow> Inl Bad_pointer
      | Some inode \<Rightarrow>
          if length (i_cap_snaps inode) \<le> k then Inl Bad_pointer
          else
            let capsnap = i_cap_snaps inode ! k in
            if cs_writing capsnap then Inl BUG
            else
              let capsnap' = capsnap
                    \<lparr>cs_size := i_size inode,
                     cs_mtime := i_mtime inode,
                     cs_atime := i_atime inode,
                     cs_ctime := i_ctime inode,
                     cs_time_warp_seq := i_time_warp_seq inode\<rparr>;
                  inode' = inode\<lparr>i_cap_snaps := (i_cap_snaps inode)[k := capsnap']\<rparr>;
                  mdsc' = mdsc\<lparr>inode_mem := (inode_mem mdsc)(ci \<mapsto> inode')\<rparr>
              in
                if cs_dirty capsnap' \<noteq> 0 then Inr (mdsc', 0)
                else if ci \<in> set (snap_flush_list mdsc') then Inl List_corrupt
                else Inr (mdsc'\<lparr>snap_flush_list := snap_flush_list mdsc' @ [ci]\<rparr>, 1))"

text \<open>
  \<^verbatim>\<open>ceph_queue_cap_snap(ci, snapc)\<close>. A failed allocation returns at once. With a
  pending cap-snap the new one is freed again (only the log line reads \<^verbatim>\<open>snapc\<close>
  there); otherwise \<^verbatim>\<open>snapc->seq\<close> is read, so a NULL \<^verbatim>\<open>snapc\<close> faults.
\<close>

definition ceph_queue_cap_snap ::
    "env \<Rightarrow> mds_client \<Rightarrow> iptr \<Rightarrow> snap_context option \<Rightarrow> fault + mds_client" where
  "ceph_queue_cap_snap ev mdsc ci snapc =
     (case kzalloc mdsc of
        (False, mdsc1) \<Rightarrow> Inr mdsc1
      | (True, mdsc1) \<Rightarrow>
          (case inode_mem mdsc1 ci of
             None \<Rightarrow> Inl Bad_pointer
           | Some inode \<Rightarrow>
               let used = caps_used ev inode in
               if ceph_have_pending_cap_snap inode then Inr mdsc1
               else
                 (case snapc of
                    None \<Rightarrow> Inl Null_deref
                  | Some sc \<Rightarrow>
                      let capsnap = zero_cap_snap
                            \<lparr>cs_follows := sc_seq sc - 1,
                             cs_context := Some sc,
                             cs_issued := caps_issued ev inode,
                             cs_dirty := i_wrbuffer_ref_head inode\<rparr>;
                          inode1 = inode
                            \<lparr>i_wrbuffer_ref_head := 0,
                             i_cap_snaps := i_cap_snaps inode @ [capsnap]\<rparr>;
                          mdsc2 = mdsc1\<lparr>inode_mem := (inode_mem mdsc1)(ci \<mapsto> inode1)\<rparr>
                      in
                        if used AND CAP_WR ev \<noteq> 0 then
                          Inr (mdsc2\<lparr>inode_mem := (inode_mem mdsc2)
                                 (ci \<mapsto> inode1\<lparr>i_cap_snaps :=
                                    i_cap_snaps inode @ [capsnap\<lparr>cs_writing := True\<rparr>]\<rparr>)\<rparr>)
                        else
                          (case ceph_finish_cap_snap mdsc2 ci (length (i_cap_snaps inode)) of
                             Inl f \<Rightarrow> Inl f
                           | Inr (mdsc3, rc) \<Rightarrow> Inr mdsc3))))"

subsection \<open>Realms: lookup, reference counts, parents\<close>

text \<open>
  Reading a realm through a pointer. Addresses from \<open>next_realm\<close> on have never been
  allocated.
\<close>

definition realm_at :: "mds_client \<Rightarrow> rptr \<Rightarrow> snap_realm option" where
  "realm_at mdsc realm = (if realm < next_realm mdsc then realm_mem mdsc realm else None)"

definition set_realm :: "mds_client \<Rightarrow> rptr \<Rightarrow> snap_realm \<Rightarrow> mds_client" where
  "set_realm mdsc realm r = mdsc\<lparr>realm_mem := (realm_mem mdsc)(realm \<mapsto> r)\<rparr>"

text \<open>A \<^verbatim>\<open>struct ceph_snap_realm\<close> as \<^verbatim>\<open>kzalloc\<close> returns it.\<close>

definition zero_realm :: snap_realm where
  "zero_realm =
     \<lparr>ino = 0, nref = 0, seq = 0, created = 0, parent_ino = 0, parent_since = 0,
      parent = None, children = [], num_snaps = 0, snaps = [],
      num_prior_parent_snaps = 0, prior_parent_snaps = [], inodes_with_caps = [],
      cached_context = None\<rparr>"

text \<open>
  \<^verbatim>\<open>ceph_get_snap_realm(mdsc, ino)\<close>: the realm found or created, with its count
  bumped; \<open>None\<close> stands for \<^verbatim>\<open>ERR_PTR(-ENOMEM)\<close>. The result of
  \<^verbatim>\<open>radix_tree_insert\<close> is not looked at by the code; the insertion is taken to succeed.
\<close>

definition ceph_get_snap_realm ::
    "mds_client \<Rightarrow> u64 \<Rightarrow> fault + mds_client \<times> rptr option" where
  "ceph_get_snap_realm mdsc i =
     (case snap_realms mdsc i of
        Some realm \<Rightarrow>
          (case realm_at mdsc realm of
             None \<Rightarrow> Inl Bad_pointer
           | Some r \<Rightarrow> Inr (set_realm mdsc realm (r\<lparr>nref := nref r + 1\<rparr>), Some realm))
      | None \<Rightarrow>
          (case kzalloc mdsc of
             (False, mdsc1) \<Rightarrow> Inr (mdsc1, None)
           | (True, mdsc1) \<Rightarrow>
               let realm = next_realm mdsc1 in
                 Inr (mdsc1
                        \<lparr>snap_realms := (snap_realms mdsc1)(i \<mapsto> realm),
                         realm_mem := (realm_mem mdsc1)(realm \<mapsto> zero_realm\<lparr>ino := i, nref := 0 + 1\<rparr>),
                         next_realm := Suc realm\<rparr>,
                      Some realm)))"

text \<open>
  \<^verbatim>\<open>list_del_init(&realm->child_item)\<close>, called where \<^verbatim>\<open>realm->parent\<close> is
  \<open>p\<close>: the realm leaves the child list of \<open>p\<close>.
\<close>

definition del_child_item :: "mds_client \<Rightarrow> rptr \<Rightarrow> rptr \<Rightarrow> fault + mds_client" where
  "del_child_item mdsc realm p =
     (case realm_at mdsc p of
        None \<Rightarrow> Inl Bad_pointer
      | Some pr \<Rightarrow> Inr (set_realm mdsc p (pr\<lparr>children := removeAll realm (children pr)\<rparr>)))"

text \<open>The number of live realms whose count is one: what a chain of puts uses up.\<close>

definition last_refs :: "mds_client \<Rightarrow> nat" where
  "last_refs mdsc =
     card {a. a < next_realm mdsc \<and> (\<exists>r. realm_mem mdsc a = Some r \<and> nref r = 1)}"

text \<open>
  \<^verbatim>\<open>ceph_put_snap_realm(mdsc, realm)\<close>. At count zero the realm leaves its parent's
  child list, the parent is put, and the realm leaves the radix tree and is freed.
\<close>

function ceph_put_snap_realm :: "mds_client \<Rightarrow> rptr \<Rightarrow> fault + mds_client" where
  "ceph_put_snap_realm mdsc realm =
     (case realm_at mdsc realm of
        None \<Rightarrow> Inl Bad_pointer
      | Some r \<Rightarrow>
          let mdsc1 = set_realm mdsc realm (r\<lparr>nref := nref r - 1\<rparr>) in
          if nref r - 1 = 0 then
            (case (case parent r of
                     None \<Rightarrow> Inr mdsc1
                   | Some p \<Rightarrow>
                       (case del_child_item mdsc1 realm p of
                          Inl f \<Rightarrow> Inl f
                        | Inr mdsc2 \<Rightarrow> ceph_put_snap_realm mdsc2 p)) of
               Inl f \<Rightarrow> Inl f
             | Inr mdsc3 \<Rightarrow>
                 (case realm_at mdsc3 realm of
                    None \<Rightarrow> Inl Bad_pointer
                  | Some r3 \<Rightarrow>
                      Inr (mdsc3\<lparr>snap_realms := (snap_realms mdsc3)(ino r3 := None),
                                 realm_mem := (realm_mem mdsc3)(realm := None)\<rparr>)))
          else Inr mdsc1)"
  by pat_completeness auto

lemma last_refs_put:
  assumes "realm_at mdsc realm = Some r"
    and "nref r - 1 = 0"
    and "del_child_item (set_realm mdsc realm (r\<lparr>nref := nref r - 1\<rparr>)) realm p = Inr mdsc2"
  shows "last_refs mdsc2 < last_refs mdsc"
proof -
  let ?S = "\<lambda>m. {a. a < next_realm m \<and> (\<exists>r. realm_mem m a = Some r \<and> nref r = 1)}"
  have one: "nref r = 1" using assms(2) by simp
  have lt: "realm < next_realm mdsc" and mem: "realm_mem mdsc realm = Some r"
    using assms(1) by (auto simp: realm_at_def split: if_splits)
  have fin: "finite (?S mdsc)" by simp
  have "realm \<in> ?S mdsc" using one lt mem by simp
  moreover have "realm \<notin> ?S mdsc2"
    using assms(3) one
    by (auto simp: del_child_item_def set_realm_def realm_at_def split: option.splits if_splits)
  moreover have "?S mdsc2 \<subseteq> ?S mdsc"
    using assms(3) one
    by (auto simp: del_child_item_def set_realm_def realm_at_def split: option.splits if_splits)
  ultimately have "?S mdsc2 \<subset> ?S mdsc" by blast
  then show ?thesis
    unfolding last_refs_def using fin by (rule psubset_card_mono[rotated])
qed

termination ceph_put_snap_realm
proof (relation "measure (\<lambda>(mdsc, realm). last_refs mdsc)")
  show "wf (measure (\<lambda>(mdsc, realm). last_refs mdsc))" by simp
next
  fix mdsc realm r mdsc1 p mdsc2
  assume "realm_at mdsc realm = Some r"
    and "mdsc1 = set_realm mdsc realm (r\<lparr>nref := nref r - 1\<rparr>)"
    and "nref r - 1 = 0"
    and "parent r = Some p"
    and "del_child_item mdsc1 realm p = Inr mdsc2"
  then show "((mdsc2, p), (mdsc, realm)) \<in> measure (\<lambda>(mdsc, realm). last_refs mdsc)"
    using last_refs_put by simp
qed

declare ceph_put_snap_realm.simps [simp del]

text \<open>
  \<^verbatim>\<open>adjust_snap_realm_parent(mdsc, realm, parentino)\<close>: 0 when the parent is
  unchanged, 1 when it changed, \<open>- ENOMEM\<close> when the new parent could not be created.
\<close>

definition adjust_snap_realm_parent ::
    "mds_client \<Rightarrow> rptr \<Rightarrow> u64 \<Rightarrow> fault + mds_client \<times> int" where
  "adjust_snap_realm_parent mdsc realm parentino =
     (case realm_at mdsc realm of
        None \<Rightarrow> Inl Bad_pointer
      | Some r \<Rightarrow>
          if parent_ino r = parentino then Inr (mdsc, 0)
          else
            (case ceph_get_snap_realm mdsc parentino of
               Inl f \<Rightarrow> Inl f
             | Inr (mdsc1, None) \<Rightarrow> Inr (mdsc1, - ENOMEM)
             | Inr (mdsc1, Some new_parent) \<Rightarrow>
                 (case realm_at mdsc1 realm of
                    None \<Rightarrow> Inl Bad_pointer
                  | Some r1 \<Rightarrow>
                      (case (case parent r1 of
                               None \<Rightarrow> Inr mdsc1
                             | Some old \<Rightarrow>
                                 (case del_child_item mdsc1 realm old of
                                    Inl f \<Rightarrow> Inl f
                                  | Inr mdsc2 \<Rightarrow> ceph_put_snap_realm mdsc2 old)) of
                         Inl f \<Rightarrow> Inl f
                       | Inr mdsc3 \<Rightarrow>
                           (case realm_at mdsc3 realm of
                              None \<Rightarrow> Inl Bad_pointer
                            | Some r3 \<Rightarrow>
                                let mdsc4 = set_realm mdsc3 realm
                                      (r3\<lparr>parent_ino := parentino, parent := Some new_parent\<rparr>)
                                in
                                  (case realm_at mdsc4 new_parent of
                                     None \<Rightarrow> Inl Bad_pointer
                                   | Some pr \<Rightarrow>
                                       Inr (set_realm mdsc4 new_parent
                                              (pr\<lparr>children := realm # children pr\<rparr>), 1)))))))"

subsection \<open>Snap contexts\<close>

text \<open>\<^verbatim>\<open>cmpu64_rev\<close>: the comparison that sorts in descending order.\<close>

definition cmpu64_rev :: "u64 \<Rightarrow> u64 \<Rightarrow> int" where
  "cmpu64_rev a b = (if a < b then 1 else if a > b then - 1 else 0)"

text \<open>
  The kernel's \<^verbatim>\<open>sort(base, num, size, cmp, NULL)\<close> (lib/sort.c) orders the array by
  \<^verbatim>\<open>cmp\<close>; here by insertion, an element going in front of the first one it does
  not compare greater than.
\<close>

fun insort_cmp :: "('a \<Rightarrow> 'a \<Rightarrow> int) \<Rightarrow> 'a \<Rightarrow> 'a list \<Rightarrow> 'a list" where
  "insort_cmp cmp x [] = [x]"
| "insort_cmp cmp x (y # ys) = (if cmp x y \<le> 0 then x # y # ys else y # insort_cmp cmp x ys)"

fun sort_cmp :: "('a \<Rightarrow> 'a \<Rightarrow> int) \<Rightarrow> 'a list \<Rightarrow> 'a list" where
  "sort_cmp cmp [] = []"
| "sort_cmp cmp (x # xs) = insort_cmp cmp x (sort_cmp cmp xs)"

text \<open>
  \<^verbatim>\<open>memcpy(dst, src, sizeof(u64) * n)\<close> out of a realm's array of \<^verbatim>\<open>u64\<close>: the
  \<open>n\<close> elements read, a fault when the array does not hold as many.
\<close>

definition memcpy_u64 :: "u64 list \<Rightarrow> s32 \<Rightarrow> fault + u64 list" where
  "memcpy_u64 src n =
     (if 0 \<le> sint n \<and> nat (sint n) \<le> length src then Inr (take (nat (sint n)) src)
      else Inl Out_of_bounds)"

text \<open>The label \<^verbatim>\<open>fail\<close> of \<^verbatim>\<open>build_snap_context\<close>: the cached context is dropped.\<close>

definition build_fail :: "mds_client \<Rightarrow> rptr \<Rightarrow> int \<Rightarrow> fault + mds_client \<times> int" where
  "build_fail mdsc realm err =
     (case realm_at mdsc realm of
        None \<Rightarrow> Inl Bad_pointer
      | Some r \<Rightarrow> Inr (set_realm mdsc realm (r\<lparr>cached_context := None\<rparr>), err))"

text \<open>
  \<^verbatim>\<open>parent->cached_context\<close> as line 178 reads it: \<open>None\<close> for a realm without
  parent, a fault when the parent has no context.
\<close>

definition parent_context :: "mds_client \<Rightarrow> snap_realm \<Rightarrow> fault + snap_context option" where
  "parent_context mdsc r =
     (case parent r of
        None \<Rightarrow> Inr None
      | Some p \<Rightarrow>
          (case realm_at mdsc p of
             None \<Rightarrow> Inl Bad_pointer
           | Some pr \<Rightarrow>
               (case cached_context pr of
                  None \<Rightarrow> Inl Null_deref
                | Some pc \<Rightarrow> Inr (Some pc))))"

text \<open>The test "do i actually need to update?" of lines 185 to 188.\<close>

definition context_unchanged :: "snap_realm \<Rightarrow> snap_context option \<Rightarrow> bool" where
  "context_unchanged r pctx =
     (case cached_context r of
        None \<Rightarrow> False
      | Some c \<Rightarrow>
          sc_seq c \<le> seq r \<and>
          (case pctx of None \<Rightarrow> True | Some pc \<Rightarrow> sc_seq c \<le> sc_seq pc))"

text \<open>
  Lines 204 to 226: the new context out of the parent's context, the realm's snaps
  and its prior parent snaps, sorted by \<^verbatim>\<open>cmpu64_rev\<close>.
\<close>

definition new_snap_context :: "snap_realm \<Rightarrow> snap_context option \<Rightarrow> fault + snap_context" where
  "new_snap_context r pctx =
     (let inherited =
            (case pctx of
               None \<Rightarrow> []
             | Some pc \<Rightarrow> filter (\<lambda>s. s \<ge> parent_since r) (sc_snaps pc));
          snapc_seq =
            (case pctx of
               None \<Rightarrow> seq r
             | Some pc \<Rightarrow> if sc_seq pc > seq r then sc_seq pc else seq r)
      in
        (case memcpy_u64 (snaps r) (num_snaps r) of
           Inl f \<Rightarrow> Inl f
         | Inr own \<Rightarrow>
             (case memcpy_u64 (prior_parent_snaps r) (num_prior_parent_snaps r) of
                Inl f \<Rightarrow> Inl f
              | Inr prior \<Rightarrow>
                  Inr \<lparr>sc_seq = snapc_seq,
                       sc_snaps = sort_cmp cmpu64_rev (inherited @ own @ prior)\<rparr>)))"

text \<open>
  \<^verbatim>\<open>build_snap_context\<close> from line 178 on, that is, once the parent's context is
  there.
\<close>

definition build_own :: "mds_client \<Rightarrow> rptr \<Rightarrow> fault + mds_client \<times> int" where
  "build_own mdsc realm =
     (case realm_at mdsc realm of
        None \<Rightarrow> Inl Bad_pointer
      | Some r \<Rightarrow>
          (case parent_context mdsc r of
             Inl f \<Rightarrow> Inl f
           | Inr pctx \<Rightarrow>
               if context_unchanged r pctx then Inr (mdsc, 0)
               else
                 (case kzalloc mdsc of
                    (False, mdsc1) \<Rightarrow> build_fail mdsc1 realm (- ENOMEM)
                  | (True, mdsc1) \<Rightarrow>
                      (case new_snap_context r pctx of
                         Inl f \<Rightarrow> Inl f
                       | Inr snapc \<Rightarrow>
                           Inr (set_realm mdsc1 realm (r\<lparr>cached_context := Some snapc\<rparr>), 0)))))"

text \<open>
  \<^verbatim>\<open>build_snap_context(realm)\<close>. The recursion climbs to a parent that has no
  context; among realms that are each other's ancestors it does not end, so the
  function takes fuel and \<open>None\<close> is "did not return".
\<close>

fun build_snap_context :: "nat \<Rightarrow> mds_client \<Rightarrow> rptr \<Rightarrow> (fault + mds_client \<times> int) option" where
  "build_snap_context 0 mdsc realm = None"
| "build_snap_context (Suc fuel) mdsc realm =
     (case realm_at mdsc realm of
        None \<Rightarrow> Some (Inl Bad_pointer)
      | Some r \<Rightarrow>
          (case parent r of
             None \<Rightarrow> Some (build_own mdsc realm)
           | Some p \<Rightarrow>
               (case realm_at mdsc p of
                  None \<Rightarrow> Some (Inl Bad_pointer)
                | Some pr \<Rightarrow>
                    (case cached_context pr of
                       Some pc \<Rightarrow> Some (build_own mdsc realm)
                     | None \<Rightarrow>
                         (case build_snap_context fuel mdsc p of
                            None \<Rightarrow> None
                          | Some (Inl f) \<Rightarrow> Some (Inl f)
                          | Some (Inr (mdsc1, err)) \<Rightarrow>
                              if err \<noteq> 0 then Some (build_fail mdsc1 realm err)
                              else Some (build_own mdsc1 realm))))))"

text \<open>
  \<^verbatim>\<open>rebuild_snap_realms(realm)\<close>: the result of \<^verbatim>\<open>build_snap_context\<close> is dropped and
  the children follow in list order.
\<close>

fun rebuild_snap_realms :: "nat \<Rightarrow> mds_client \<Rightarrow> rptr \<Rightarrow> (fault + mds_client) option"
  and rebuild_children :: "nat \<Rightarrow> mds_client \<Rightarrow> rptr list \<Rightarrow> (fault + mds_client) option" where
  "rebuild_snap_realms 0 mdsc realm = None"
| "rebuild_snap_realms (Suc fuel) mdsc realm =
     (case build_snap_context fuel mdsc realm of
        None \<Rightarrow> None
      | Some (Inl f) \<Rightarrow> Some (Inl f)
      | Some (Inr (mdsc1, err)) \<Rightarrow>
          (case realm_at mdsc1 realm of
             None \<Rightarrow> Some (Inl Bad_pointer)
           | Some r \<Rightarrow> rebuild_children fuel mdsc1 (children r)))"
| "rebuild_children fuel mdsc [] = Some (Inr mdsc)"
| "rebuild_children fuel mdsc (child # rest) =
     (case rebuild_snap_realms fuel mdsc child of
        None \<Rightarrow> None
      | Some (Inl f) \<Rightarrow> Some (Inl f)
      | Some (Inr mdsc1) \<Rightarrow> rebuild_children fuel mdsc1 rest)"

subsection \<open>The wire format\<close>

text \<open>
  A message front is a list of bytes; a pointer into it is its offset, an \<open>int\<close>,
  since the code moves pointers by counts it has not checked. A read outside the
  buffer gives \<open>None\<close>.
\<close>

type_synonym byte = "8 word"

definition get_bytes :: "byte list \<Rightarrow> int \<Rightarrow> nat \<Rightarrow> byte list option" where
  "get_bytes buf p n =
     (if 0 \<le> p \<and> nat p + n \<le> length buf then Some (take n (drop (nat p) buf)) else None)"

fun le_nat :: "byte list \<Rightarrow> nat" where
  "le_nat [] = 0"
| "le_nat (b # bs) = unat b + 256 * le_nat bs"

definition get_le64 :: "byte list \<Rightarrow> int \<Rightarrow> u64 option" where
  "get_le64 buf p = map_option (\<lambda>bs. of_nat (le_nat bs)) (get_bytes buf p 8)"

definition get_le32 :: "byte list \<Rightarrow> int \<Rightarrow> u32 option" where
  "get_le32 buf p = map_option (\<lambda>bs. of_nat (le_nat bs)) (get_bytes buf p 4)"

fun read_le64s :: "byte list \<Rightarrow> int \<Rightarrow> nat \<Rightarrow> u64 list option" where
  "read_le64s buf p 0 = Some []"
| "read_le64s buf p (Suc n) =
     (case get_le64 buf p of
        None \<Rightarrow> None
      | Some x \<Rightarrow> map_option ((#) x) (read_le64s buf (p + 8) n))"

text \<open>
  Modelled from the spec: the layouts of \<^verbatim>\<open>struct ceph_mds_snap_head\<close> and
  \<^verbatim>\<open>struct ceph_mds_snap_realm\<close> are declared in ceph_fs.h, which is not among the
  sources. The spec lists \<open>{op, split_ino, num_split_inos, num_split_realms, trace_len}\<close>
  and \<open>{ino, seq, created, parent_ino, parent_since, num_snaps, num_prior_parent_snaps}\<close>,
  little-endian; the widths are those of the \<^verbatim>\<open>le32_to_cpu\<close>/\<^verbatim>\<open>le64_to_cpu\<close> the code
  applies, and the structs are packed.
\<close>

definition sizeof_snap_head :: int where
  "sizeof_snap_head = 24"

definition sizeof_snap_realm :: int where
  "sizeof_snap_realm = 48"

record mds_snap_head =
  h_op :: s32
  h_split :: u64
  h_num_split_inos :: s32
  h_num_split_realms :: s32
  h_trace_len :: s32

record mds_snap_realm =
  ri_ino :: u64
  ri_seq :: u64
  ri_created :: u64
  ri_parent :: u64
  ri_parent_since :: u64
  ri_num_snaps :: u32
  ri_num_prior_parent_snaps :: u32

definition decode_snap_head :: "byte list \<Rightarrow> int \<Rightarrow> mds_snap_head option" where
  "decode_snap_head buf p =
     (case (get_le32 buf p, get_le64 buf (p + 4), get_le32 buf (p + 12),
            get_le32 buf (p + 16), get_le32 buf (p + 20)) of
        (Some a, Some b, Some c, Some d, Some e) \<Rightarrow>
          Some \<lparr>h_op = a, h_split = b, h_num_split_inos = c, h_num_split_realms = d,
                h_trace_len = e\<rparr>
      | _ \<Rightarrow> None)"

definition ri_created_at :: "byte list \<Rightarrow> int \<Rightarrow> u64 option" where
  "ri_created_at buf p = get_le64 buf (p + 16)"

definition decode_snap_realm :: "byte list \<Rightarrow> int \<Rightarrow> mds_snap_realm option" where
  "decode_snap_realm buf p =
     (case (get_le64 buf p, get_le64 buf (p + 8), ri_created_at buf p, get_le64 buf (p + 24),
            get_le64 buf (p + 32), get_le32 buf (p + 40), get_le32 buf (p + 44)) of
        (Some a, Some b, Some c, Some d, Some e, Some f, Some g) \<Rightarrow>
          Some \<lparr>ri_ino = a, ri_seq = b, ri_created = c, ri_parent = d, ri_parent_since = e,
                ri_num_snaps = f, ri_num_prior_parent_snaps = g\<rparr>
      | _ \<Rightarrow> None)"

text \<open>
  \<^verbatim>\<open>dup_array(dst, src, num)\<close>: the new array (empty for NULL) and the return value.
  A negative \<^verbatim>\<open>num\<close> asks \<^verbatim>\<open>kmalloc\<close> for more than \<open>2 ^ 63\<close> bytes, which fails.
\<close>

definition dup_array ::
    "mds_client \<Rightarrow> byte list \<Rightarrow> int \<Rightarrow> s32 \<Rightarrow> fault + mds_client \<times> u64 list \<times> int" where
  "dup_array mdsc buf src num =
     (if num = 0 then Inr (mdsc, [], 0)
      else if sint num < 0 then Inr (mdsc, [], - ENOMEM)
      else
        (case kzalloc mdsc of
           (False, mdsc1) \<Rightarrow> Inr (mdsc1, [], - ENOMEM)
         | (True, mdsc1) \<Rightarrow>
             (case read_le64s buf src (nat (sint num)) of
                None \<Rightarrow> Inl Out_of_bounds
              | Some xs \<Rightarrow> Inr (mdsc1, xs, 0))))"

subsection \<open>Applying a snap trace\<close>

text \<open>
  The walk over \<^verbatim>\<open>realm->inodes_with_caps\<close> (lines 447 to 452): every inode is
  handed to \<^verbatim>\<open>ceph_queue_cap_snap\<close> with the same context.
\<close>

fun queue_cap_snaps ::
    "env \<Rightarrow> mds_client \<Rightarrow> iptr list \<Rightarrow> snap_context option \<Rightarrow> fault + mds_client" where
  "queue_cap_snaps ev mdsc [] snapc = Inr mdsc"
| "queue_cap_snaps ev mdsc (ci # rest) snapc =
     (case ceph_queue_cap_snap ev mdsc ci snapc of
        Inl f \<Rightarrow> Inl f
      | Inr mdsc1 \<Rightarrow> queue_cap_snaps ev mdsc1 rest snapc)"

text \<open>Lines 433 to 459 of \<^verbatim>\<open>ceph_update_snap_trace\<close>: the cap-snaps of a realm that moves on.\<close>

definition trace_queue ::
    "env \<Rightarrow> mds_client \<Rightarrow> rptr \<Rightarrow> mds_snap_realm \<Rightarrow> bool \<Rightarrow> fault + mds_client" where
  "trace_queue ev mdsc realm ri deletion =
     (case realm_at mdsc realm of
        None \<Rightarrow> Inl Bad_pointer
      | Some r \<Rightarrow>
          if ri_seq ri > seq r then
            (if \<not> deletion then queue_cap_snaps ev mdsc (inodes_with_caps r) (cached_context r)
             else Inr mdsc)
          else Inr mdsc)"

text \<open>
  Lines 467 to 488: the realm takes the encoded parameters and arrays. The result is
  \<open>Inl err\<close> for \<^verbatim>\<open>goto fail\<close>, else the new value of \<^verbatim>\<open>invalidate\<close>.
\<close>

definition update_realm_params ::
    "mds_client \<Rightarrow> byte list \<Rightarrow> rptr \<Rightarrow> mds_snap_realm \<Rightarrow> int \<Rightarrow> int \<Rightarrow> int \<Rightarrow>
     fault + mds_client \<times> (int + int)" where
  "update_realm_params mdsc buf realm ri snaps_p prior_p invalidate =
     (case realm_at mdsc realm of
        None \<Rightarrow> Inl Bad_pointer
      | Some r \<Rightarrow>
          if ri_seq ri > seq r then
            let r1 = r\<lparr>seq := ri_seq ri, created := ri_created ri,
                       parent_since := ri_parent_since ri, num_snaps := ri_num_snaps ri\<rparr>
            in
              (case dup_array mdsc buf snaps_p (num_snaps r1) of
                 Inl f \<Rightarrow> Inl f
               | Inr (mdsc1, xs, err) \<Rightarrow>
                   let r2 = r1\<lparr>snaps := xs\<rparr> in
                   if err < 0 then Inr (set_realm mdsc1 realm r2, Inl err)
                   else
                     let r3 = r2\<lparr>num_prior_parent_snaps := ri_num_prior_parent_snaps ri\<rparr> in
                     (case dup_array mdsc1 buf prior_p (num_prior_parent_snaps r3) of
                        Inl f \<Rightarrow> Inl f
                      | Inr (mdsc2, ys, err2) \<Rightarrow>
                          let r4 = r3\<lparr>prior_parent_snaps := ys\<rparr> in
                          if err2 < 0 then Inr (set_realm mdsc2 realm r4, Inl err2)
                          else Inr (set_realm mdsc2 realm r4, Inr 1)))
          else if cached_context r = None then Inr (mdsc, Inr 1)
          else Inr (mdsc, Inr invalidate))"

text \<open>
  One pass of \<^verbatim>\<open>ceph_update_snap_trace\<close> from the label \<^verbatim>\<open>more\<close> to the test
  \<^verbatim>\<open>if (p < e) goto more\<close>: one encoded realm is decoded and applied. The fuel is for
  \<^verbatim>\<open>rebuild_snap_realms\<close>. The result is the state and \<open>Inl err\<close> for
  \<^verbatim>\<open>ERR_PTR(err)\<close>, else the new values of \<^verbatim>\<open>p\<close>, \<^verbatim>\<open>first\<close> and \<^verbatim>\<open>invalidate\<close>.
\<close>

definition trace_step ::
    "nat \<Rightarrow> env \<Rightarrow> mds_client \<Rightarrow> byte list \<Rightarrow> int \<Rightarrow> int \<Rightarrow> bool \<Rightarrow> rptr option \<Rightarrow> int \<Rightarrow>
     (fault + mds_client \<times> (int + int \<times> rptr \<times> int)) option" where
  "trace_step fuel ev mdsc buf p e deletion first invalidate =
     (if p + sizeof_snap_realm > e then Some (Inr (mdsc, Inl (- EINVAL)))
      else
        (case decode_snap_realm buf p of
           None \<Rightarrow> Some (Inl Out_of_bounds)
         | Some ri \<Rightarrow>
             let snaps_p = p + sizeof_snap_realm in
             if snaps_p + 8 * uint (ri_num_snaps ri + ri_num_prior_parent_snaps ri) > e
             then Some (Inr (mdsc, Inl (- EINVAL)))
             else
               let prior_p = snaps_p + 8 * uint (ri_num_snaps ri);
                   p2 = prior_p + 8 * uint (ri_num_prior_parent_snaps ri)
               in
                 (case ceph_get_snap_realm mdsc (ri_ino ri) of
                    Inl f \<Rightarrow> Some (Inl f)
                  | Inr (mdsc1, None) \<Rightarrow> Some (Inr (mdsc1, Inl (- ENOMEM)))
                  | Inr (mdsc1, Some realm) \<Rightarrow>
                      (case realm_at mdsc1 realm of
                         None \<Rightarrow> Some (Inl Bad_pointer)
                       | Some r1 \<Rightarrow>
                           let first1 = (case first of None \<Rightarrow> realm | Some f \<Rightarrow> f);
                               mdsc2 = (case first of
                                          None \<Rightarrow> set_realm mdsc1 realm (r1\<lparr>nref := nref r1 + 1\<rparr>)
                                        | Some f \<Rightarrow> mdsc1)
                           in
                             (case trace_queue ev mdsc2 realm ri deletion of
                                Inl f \<Rightarrow> Some (Inl f)
                              | Inr mdsc3 \<Rightarrow>
                                  (case adjust_snap_realm_parent mdsc3 realm (ri_parent ri) of
                                     Inl f \<Rightarrow> Some (Inl f)
                                   | Inr (mdsc4, err) \<Rightarrow>
                                       if err < 0 then Some (Inr (mdsc4, Inl err))
                                       else
                                         (case update_realm_params mdsc4 buf realm ri snaps_p
                                                 prior_p (invalidate + err) of
                                            Inl f \<Rightarrow> Some (Inl f)
                                          | Inr (mdsc5, Inl err5) \<Rightarrow> Some (Inr (mdsc5, Inl err5))
                                          | Inr (mdsc5, Inr invalidate1) \<Rightarrow>
                                              (case (if p2 = e \<and> invalidate1 \<noteq> 0
                                                     then rebuild_snap_realms fuel mdsc5 realm
                                                     else Some (Inr mdsc5)) of
                                                 None \<Rightarrow> None
                                               | Some (Inl f) \<Rightarrow> Some (Inl f)
                                               | Some (Inr mdsc6) \<Rightarrow>
                                                   (case ceph_put_snap_realm mdsc6 realm of
                                                      Inl f \<Rightarrow> Some (Inl f)
                                                    | Inr mdsc7 \<Rightarrow>
                                                        Some (Inr (mdsc7,
                                                          Inr (p2, first1, invalidate1))))))))))))"

text \<open>
  The loop of \<^verbatim>\<open>ceph_update_snap_trace\<close>, with the locals \<^verbatim>\<open>first\<close> and
  \<^verbatim>\<open>invalidate\<close>. The result is the state and \<open>Inl err\<close> for \<^verbatim>\<open>ERR_PTR(err)\<close> or
  \<open>Inr first\<close>; \<open>None\<close> is "did not return".
\<close>

fun update_snap_trace_more ::
    "nat \<Rightarrow> env \<Rightarrow> mds_client \<Rightarrow> byte list \<Rightarrow> int \<Rightarrow> int \<Rightarrow> bool \<Rightarrow> rptr option \<Rightarrow> int \<Rightarrow>
     (fault + mds_client \<times> (int + rptr)) option" where
  "update_snap_trace_more 0 ev mdsc buf p e deletion first invalidate = None"
| "update_snap_trace_more (Suc fuel) ev mdsc buf p e deletion first invalidate =
     (case trace_step fuel ev mdsc buf p e deletion first invalidate of
        None \<Rightarrow> None
      | Some (Inl f) \<Rightarrow> Some (Inl f)
      | Some (Inr (mdsc1, Inl err)) \<Rightarrow> Some (Inr (mdsc1, Inl err))
      | Some (Inr (mdsc1, Inr (p2, first1, invalidate1))) \<Rightarrow>
          if p2 < e
          then update_snap_trace_more fuel ev mdsc1 buf p2 e deletion (Some first1) invalidate1
          else Some (Inr (mdsc1, Inr first1)))"

text \<open>\<^verbatim>\<open>ceph_update_snap_trace(mdsc, p, e, deletion)\<close>.\<close>

definition ceph_update_snap_trace ::
    "nat \<Rightarrow> env \<Rightarrow> mds_client \<Rightarrow> byte list \<Rightarrow> int \<Rightarrow> int \<Rightarrow> bool \<Rightarrow>
     (fault + mds_client \<times> (int + rptr)) option" where
  "ceph_update_snap_trace fuel ev mdsc buf p e deletion =
     update_snap_trace_more fuel ev mdsc buf p e deletion None 0"

subsection \<open>Snap messages\<close>

text \<open>
  \<^verbatim>\<open>struct ceph_msg\<close>: the source name of the header and the front.
\<close>

record ceph_msg =
  hdr_src_type :: u32
  hdr_src_num :: u32
  front :: "byte list"

text \<open>
  \<^verbatim>\<open>flush_snaps(mdsc)\<close>: \<^verbatim>\<open>__ceph_flush_snaps\<close> is called on the head of the flush
  list until the list is empty.
\<close>

fun flush_snaps :: "nat \<Rightarrow> env \<Rightarrow> mds_client \<Rightarrow> (fault + mds_client) option" where
  "flush_snaps 0 ev mdsc = None"
| "flush_snaps (Suc fuel) ev mdsc =
     (case snap_flush_list mdsc of
        [] \<Rightarrow> Some (Inr mdsc)
      | ci # rest \<Rightarrow>
          (case flush_inode_snaps ev mdsc ci of
             Inl f \<Rightarrow> Some (Inl f)
           | Inr mdsc1 \<Rightarrow> flush_snaps fuel ev mdsc1))"

text \<open>
  \<^verbatim>\<open>list_del_init(&ci->i_snap_realm_item)\<close>, called where \<^verbatim>\<open>ci->i_snap_realm\<close> is
  \<open>realm\<close>: the inode leaves that realm's list.
\<close>

definition del_snap_realm_item :: "mds_client \<Rightarrow> iptr \<Rightarrow> rptr \<Rightarrow> fault + mds_client" where
  "del_snap_realm_item mdsc ci realm =
     (case realm_at mdsc realm of
        None \<Rightarrow> Inl Bad_pointer
      | Some r \<Rightarrow>
          Inr (set_realm mdsc realm (r\<lparr>inodes_with_caps := removeAll ci (inodes_with_caps r)\<rparr>)))"

text \<open>
  The first loop over \<^verbatim>\<open>split_inos\<close> (lines 635 to 685), for the indices given:
  \<open>split_inos\<close> is the offset of the array, \<open>ri_p\<close> the offset of the encoded realm
  the code peeks at.
\<close>

fun split_move_inodes ::
    "env \<Rightarrow> mds_client \<Rightarrow> byte list \<Rightarrow> int \<Rightarrow> int \<Rightarrow> nat list \<Rightarrow> fault + mds_client" where
  "split_move_inodes ev mdsc buf split_inos ri_p [] = Inr mdsc"
| "split_move_inodes ev mdsc buf split_inos ri_p (i # rest) =
     (case get_le64 buf (split_inos + 8 * int i) of
        None \<Rightarrow> Inl Out_of_bounds
      | Some vino \<Rightarrow>
          (case find_inode ev vino of
             None \<Rightarrow> split_move_inodes ev mdsc buf split_inos ri_p rest
           | Some ci \<Rightarrow>
               (case inode_mem mdsc ci of
                  None \<Rightarrow> Inl Bad_pointer
                | Some inode \<Rightarrow>
                    (case i_snap_realm inode of
                       None \<Rightarrow> split_move_inodes ev mdsc buf split_inos ri_p rest
                     | Some old \<Rightarrow>
                         (case realm_at mdsc old of
                            None \<Rightarrow> Inl Bad_pointer
                          | Some oldr \<Rightarrow>
                              (case ri_created_at buf ri_p of
                                 None \<Rightarrow> Inl Out_of_bounds
                               | Some new_created \<Rightarrow>
                                   if created oldr > new_created
                                   then split_move_inodes ev mdsc buf split_inos ri_p rest
                                   else
                                     (case del_snap_realm_item mdsc ci old of
                                        Inl f \<Rightarrow> Inl f
                                      | Inr mdsc1 \<Rightarrow>
                                          (case ceph_queue_cap_snap ev mdsc1 ci (cached_context oldr) of
                                             Inl f \<Rightarrow> Inl f
                                           | Inr mdsc2 \<Rightarrow>
                                               split_move_inodes ev mdsc2 buf split_inos ri_p
                                                 rest))))))))"

text \<open>The loop over \<^verbatim>\<open>split_realms\<close> (lines 688 to 696).\<close>

fun split_move_realms ::
    "mds_client \<Rightarrow> byte list \<Rightarrow> int \<Rightarrow> rptr \<Rightarrow> nat list \<Rightarrow> fault + mds_client" where
  "split_move_realms mdsc buf split_realms realm [] = Inr mdsc"
| "split_move_realms mdsc buf split_realms realm (i # rest) =
     (case get_le64 buf (split_realms + 8 * int i) of
        None \<Rightarrow> Inl Out_of_bounds
      | Some child_ino \<Rightarrow>
          (case ceph_get_snap_realm mdsc child_ino of
             Inl f \<Rightarrow> Inl f
           | Inr (mdsc1, None) \<Rightarrow> split_move_realms mdsc1 buf split_realms realm rest
           | Inr (mdsc1, Some child) \<Rightarrow>
               (case realm_at mdsc1 realm of
                  None \<Rightarrow> Inl Bad_pointer
                | Some r \<Rightarrow>
                    (case adjust_snap_realm_parent mdsc1 child (ino r) of
                       Inl f \<Rightarrow> Inl f
                     | Inr (mdsc2, err) \<Rightarrow>
                         (case ceph_put_snap_realm mdsc2 child of
                            Inl f \<Rightarrow> Inl f
                          | Inr mdsc3 \<Rightarrow> split_move_realms mdsc3 buf split_realms realm rest)))))"

text \<open>
  The split part of \<^verbatim>\<open>ceph_handle_snap\<close> (lines 611 to 697). The result is
  \<open>Inl ()\<close> for \<^verbatim>\<open>goto bad\<close> and \<^verbatim>\<open>goto out\<close>, else the offset the trace starts at.
\<close>

definition handle_split ::
    "env \<Rightarrow> mds_client \<Rightarrow> byte list \<Rightarrow> int \<Rightarrow> int \<Rightarrow> mds_snap_head \<Rightarrow>
     fault + mds_client \<times> (unit + int)" where
  "handle_split ev mdsc buf p e h =
     (let split_inos = p;
          split_realms = split_inos + 8 * sint (h_num_split_inos h);
          p1 = split_realms + 8 * sint (h_num_split_realms h)
      in
        if p1 + sizeof_snap_realm > e then Inr (mdsc, Inl ())
        else
          (case ceph_get_snap_realm mdsc (h_split h) of
             Inl f \<Rightarrow> Inl f
           | Inr (mdsc1, None) \<Rightarrow> Inr (mdsc1, Inl ())
           | Inr (mdsc1, Some realm) \<Rightarrow>
               (case split_move_inodes ev mdsc1 buf split_inos p1
                       [0..<nat (sint (h_num_split_inos h))] of
                  Inl f \<Rightarrow> Inl f
                | Inr mdsc2 \<Rightarrow>
                    (case split_move_realms mdsc2 buf split_realms realm
                            [0..<nat (sint (h_num_split_realms h))] of
                       Inl f \<Rightarrow> Inl f
                     | Inr mdsc3 \<Rightarrow> Inr (mdsc3, Inr p1)))))"

text \<open>
  The second loop over \<^verbatim>\<open>split_inos\<close> (lines 712 to 731): every inode found is put
  into \<open>realm\<close>, the realm the trace returned.
\<close>

fun split_attach_inodes ::
    "env \<Rightarrow> mds_client \<Rightarrow> byte list \<Rightarrow> int \<Rightarrow> rptr \<Rightarrow> nat list \<Rightarrow> fault + mds_client" where
  "split_attach_inodes ev mdsc buf split_inos realm [] = Inr mdsc"
| "split_attach_inodes ev mdsc buf split_inos realm (i # rest) =
     (case get_le64 buf (split_inos + 8 * int i) of
        None \<Rightarrow> Inl Out_of_bounds
      | Some vino \<Rightarrow>
          (case find_inode ev vino of
             None \<Rightarrow> split_attach_inodes ev mdsc buf split_inos realm rest
           | Some ci \<Rightarrow>
               (case inode_mem mdsc ci of
                  None \<Rightarrow> Inl Bad_pointer
                | Some inode \<Rightarrow>
                    (case i_snap_realm inode of
                       None \<Rightarrow> Inl Null_deref
                     | Some old \<Rightarrow>
                         (case ceph_put_snap_realm mdsc old of
                            Inl f \<Rightarrow> Inl f
                          | Inr mdsc1 \<Rightarrow>
                              (case realm_at mdsc1 realm of
                                 None \<Rightarrow> Inl Bad_pointer
                               | Some r \<Rightarrow>
                                   let mdsc2 = set_realm mdsc1 realm
                                         (r\<lparr>inodes_with_caps := ci # inodes_with_caps r,
                                            nref := nref r + 1\<rparr>);
                                       mdsc3 = mdsc2\<lparr>inode_mem := (inode_mem mdsc2)
                                                 (ci \<mapsto> inode\<lparr>i_snap_realm := Some realm\<rparr>)\<rparr>
                                   in split_attach_inodes ev mdsc3 buf split_inos realm rest))))))"

text \<open>
  \<^verbatim>\<open>ceph_handle_snap(mdsc, msg)\<close>. Modelled from the spec: \<^verbatim>\<open>__ceph_get_mds_session\<close>
  (mds_client.c, not among the sources) is the lookup of "the metadata server session"
  by the number of the sending MDS.
\<close>

definition ceph_handle_snap ::
    "nat \<Rightarrow> env \<Rightarrow> mds_client \<Rightarrow> ceph_msg \<Rightarrow> (fault + mds_client) option" where
  "ceph_handle_snap fuel ev mdsc msg =
     (let buf = front msg; e = int (length buf) in
      if hdr_src_type msg \<noteq> ENTITY_TYPE_MDS ev then Some (Inr mdsc)
      else
        let mds = hdr_src_num msg in
        if e < sizeof_snap_head then Some (Inr mdsc)
        else
          (case decode_snap_head buf 0 of
             None \<Rightarrow> Some (Inl Out_of_bounds)
           | Some h \<Rightarrow>
               (case sessions mdsc mds of
                  None \<Rightarrow> Some (Inr mdsc)
                | Some session \<Rightarrow>
                    let mdsc1 = mdsc\<lparr>sessions := (sessions mdsc)
                                  (mds \<mapsto> session\<lparr>s_seq := s_seq session + 1\<rparr>)\<rparr>
                    in
                      (case (if h_op h = SNAP_OP_SPLIT ev
                             then handle_split ev mdsc1 buf sizeof_snap_head e h
                             else Inr (mdsc1, Inr sizeof_snap_head)) of
                         Inl f \<Rightarrow> Some (Inl f)
                       | Inr (mdsc2, Inl u) \<Rightarrow> Some (Inr mdsc2)
                       | Inr (mdsc2, Inr p) \<Rightarrow>
                           (case ceph_update_snap_trace fuel ev mdsc2 buf p e
                                   (h_op h = SNAP_OP_DESTROY ev) of
                              None \<Rightarrow> None
                            | Some (Inl f) \<Rightarrow> Some (Inl f)
                            | Some (Inr (mdsc3, Inl err)) \<Rightarrow> Some (Inr mdsc3)
                            | Some (Inr (mdsc3, Inr realm)) \<Rightarrow>
                                (case (if h_op h = SNAP_OP_SPLIT ev
                                       then
                                         (case split_attach_inodes ev mdsc3 buf sizeof_snap_head
                                                 realm [0..<nat (sint (h_num_split_inos h))] of
                                            Inl f \<Rightarrow> Inl f
                                          | Inr mdsc4 \<Rightarrow> ceph_put_snap_realm mdsc4 realm)
                                       else Inr mdsc3) of
                                   Inl f \<Rightarrow> Some (Inl f)
                                 | Inr mdsc5 \<Rightarrow>
                                     (case ceph_put_snap_realm mdsc5 realm of
                                        Inl f \<Rightarrow> Some (Inl f)
                                      | Inr mdsc6 \<Rightarrow> flush_snaps fuel ev mdsc6)))))))"

subsection \<open>Example states\<close>

definition ex_env :: env where
  "ex_env =
     \<lparr>caps_used = (\<lambda>inode. 0),
      caps_issued = (\<lambda>inode. 5),
      find_inode = (\<lambda>vino. if vino = 100 then Some 0 else None),
      flush_inode_snaps =
        (\<lambda>mdsc ci. Inr (mdsc\<lparr>snap_flush_list := removeAll ci (snap_flush_list mdsc)\<rparr>)),
      CAP_WR = 8, ENTITY_TYPE_MDS = 2, SNAP_OP_SPLIT = 3, SNAP_OP_DESTROY = 2\<rparr>"

definition ex_inode :: inode_info where
  "ex_inode =
     \<lparr>i_size = 4096, i_mtime = (7, 0), i_atime = (8, 0), i_ctime = (9, 0),
      i_time_warp_seq = 3, i_wrbuffer_ref_head = 2, i_cap_snaps = [],
      i_snap_realm = None\<rparr>"

definition ex_mdsc :: mds_client where
  "ex_mdsc =
     \<lparr>snap_realms = (\<lambda>i. None), realm_mem = (\<lambda>a. None), next_realm = 0,
      inode_mem = (\<lambda>a. if a = 0 then Some ex_inode else None),
      snap_flush_list = [], sessions = (\<lambda>m. None), alloc_ok = []\<rparr>"

text \<open>An inode with one clean, finished cap-snap and one with a pending cap-snap.\<close>

definition ex_mdsc_clean :: mds_client where
  "ex_mdsc_clean =
     ex_mdsc\<lparr>inode_mem := (\<lambda>a. if a = 0 then Some (ex_inode\<lparr>i_cap_snaps := [zero_cap_snap]\<rparr>)
                                else None)\<rparr>"

definition ex_mdsc_pending :: mds_client where
  "ex_mdsc_pending =
     ex_mdsc\<lparr>inode_mem := (\<lambda>a. if a = 0
        then Some (ex_inode\<lparr>i_cap_snaps := [zero_cap_snap\<lparr>cs_writing := True\<rparr>]\<rparr>)
        else None)\<rparr>"

text \<open>The first client when the next allocation fails.\<close>

definition ex_mdsc_nomem :: mds_client where
  "ex_mdsc_nomem = ex_mdsc\<lparr>alloc_ok := [False]\<rparr>"

subsection \<open>What a built context is\<close>

text \<open>
  The entries of a realm's arrays that \<^verbatim>\<open>build_snap_context\<close> copies: \<^verbatim>\<open>num_snaps\<close>
  of \<^verbatim>\<open>snaps\<close> and \<^verbatim>\<open>num_prior_parent_snaps\<close> of \<^verbatim>\<open>prior_parent_snaps\<close>.
\<close>

definition own_snaps :: "snap_realm \<Rightarrow> u64 list" where
  "own_snaps r = take (nat (sint (num_snaps r))) (snaps r)"

definition prior_snaps :: "snap_realm \<Rightarrow> u64 list" where
  "prior_snaps r = take (nat (sint (num_prior_parent_snaps r))) (prior_parent_snaps r)"

text \<open>The cached context of the realm at an address, \<open>None\<close> also when there is no realm.\<close>

definition realm_context :: "mds_client \<Rightarrow> rptr \<Rightarrow> snap_context option" where
  "realm_context mdsc realm =
     (case realm_at mdsc realm of None \<Rightarrow> None | Some r \<Rightarrow> cached_context r)"

text \<open>
  \<open>built_context mdsc r c\<close>: the context \<open>c\<close> is the one derived for the realm \<open>r\<close>
  in the state \<open>mdsc\<close>. Its snaps are the descending sort of the parent's cached
  entries from \<open>parent_since\<close> on, the realm's own snaps and its prior parent snaps,
  every occurrence kept; its seq is the larger of the realm's seq and the seq of the
  parent's context, and the realm's seq when there is no parent.
\<close>

definition built_context :: "mds_client \<Rightarrow> snap_realm \<Rightarrow> snap_context \<Rightarrow> bool" where
  "built_context mdsc r c =
     (case parent r of
        None \<Rightarrow> sc_snaps c = rev (sort (own_snaps r @ prior_snaps r)) \<and> sc_seq c = seq r
      | Some p \<Rightarrow>
          (case realm_at mdsc p of
             None \<Rightarrow> False
           | Some pr \<Rightarrow>
               (case cached_context pr of
                  None \<Rightarrow> False
                | Some pc \<Rightarrow>
                    sc_snaps c = rev (sort (filter (\<lambda>s. parent_since r \<le> s) (sc_snaps pc) @
                                            own_snaps r @ prior_snaps r)) \<and>
                    sc_seq c = max (seq r) (sc_seq pc))))"

text \<open>
  A root realm (inode 1, snaps 3 and 5) at address 0 and its child (inode 2, own snap 2,
  prior parent snap 1, child since 4) at address 1, neither with a context yet.
\<close>

definition ex_root :: snap_realm where
  "ex_root = zero_realm\<lparr>ino := 1, nref := 2, seq := 5, created := 1, children := [1],
                        num_snaps := 2, snaps := [3, 5]\<rparr>"

definition ex_child :: snap_realm where
  "ex_child = zero_realm\<lparr>ino := 2, nref := 1, seq := 4, created := 2, parent_ino := 1,
                         parent_since := 4, parent := Some 0, num_snaps := 1, snaps := [2],
                         num_prior_parent_snaps := 1, prior_parent_snaps := [1]\<rparr>"

definition ex_forest :: mds_client where
  "ex_forest =
     ex_mdsc\<lparr>snap_realms := (\<lambda>i. if i = 1 then Some 0 else if i = 2 then Some 1 else None),
             realm_mem := (\<lambda>a. if a = 0 then Some ex_root else if a = 1 then Some ex_child
                                else None),
             next_realm := 2\<rparr>"

text \<open>A realm whose snap 5 is also among its prior parent snaps.\<close>

definition ex_dup_realm :: snap_realm where
  "ex_dup_realm = zero_realm\<lparr>ino := 1, nref := 1, seq := 7, num_snaps := 1, snaps := [5],
                             num_prior_parent_snaps := 1, prior_parent_snaps := [5]\<rparr>"

definition ex_dup :: mds_client where
  "ex_dup =
     ex_mdsc\<lparr>snap_realms := (\<lambda>i. if i = 1 then Some 0 else None),
             realm_mem := (\<lambda>a. if a = 0 then Some ex_dup_realm else None),
             next_realm := 1\<rparr>"

subsection \<open>What a step leaves alone\<close>

text \<open>
  \<open>realms_only m m'\<close>: from \<open>m\<close> to \<open>m'\<close> only realms, the radix tree and the
  allocator changed. \<open>inodes_only m m'\<close>: only inodes, the flush list and the allocator
  changed.
\<close>

definition realms_only :: "mds_client \<Rightarrow> mds_client \<Rightarrow> bool" where
  "realms_only m m' \<longleftrightarrow>
     inode_mem m' = inode_mem m \<and> snap_flush_list m' = snap_flush_list m \<and>
     sessions m' = sessions m"

definition inodes_only :: "mds_client \<Rightarrow> mds_client \<Rightarrow> bool" where
  "inodes_only m m' \<longleftrightarrow>
     snap_realms m' = snap_realms m \<and> realm_mem m' = realm_mem m \<and>
     next_realm m' = next_realm m \<and> sessions m' = sessions m"

subsection \<open>Messages that do not decode\<close>

text \<open>
  The first encoded realm at \<open>p\<close> does not fit in front of \<open>e\<close>: one of the two
  \<^verbatim>\<open>ceph_decode_need\<close> at the label \<^verbatim>\<open>more\<close> fails.
\<close>

definition first_realm_undecodable :: "byte list \<Rightarrow> int \<Rightarrow> int \<Rightarrow> bool" where
  "first_realm_undecodable buf p e \<longleftrightarrow>
     e < p + sizeof_snap_realm \<or>
     (case decode_snap_realm buf p of
        None \<Rightarrow> False
      | Some ri \<Rightarrow>
          e < p + sizeof_snap_realm +
              8 * uint (ri_num_snaps ri + ri_num_prior_parent_snaps ri))"

text \<open>The \<^verbatim>\<open>ceph_decode_need\<close> of the split part (line 624) fails.\<close>

definition split_head_undecodable :: "mds_snap_head \<Rightarrow> int \<Rightarrow> int \<Rightarrow> bool" where
  "split_head_undecodable h p e \<longleftrightarrow>
     e < p + 8 * sint (h_num_split_inos h) + 8 * sint (h_num_split_realms h) +
         sizeof_snap_realm"

text \<open>
  A message that fails to decode before anything of it is applied: the front is shorter
  than the snap head, or the split arrays leave no room for an encoded realm, or (no
  split) the first encoded realm of the trace does not fit.
\<close>

definition snap_msg_undecodable :: "env \<Rightarrow> ceph_msg \<Rightarrow> bool" where
  "snap_msg_undecodable ev msg \<longleftrightarrow>
     int (length (front msg)) < sizeof_snap_head \<or>
     (case decode_snap_head (front msg) 0 of
        None \<Rightarrow> False
      | Some h \<Rightarrow>
          if h_op h = SNAP_OP_SPLIT ev
          then split_head_undecodable h sizeof_snap_head (int (length (front msg)))
          else first_realm_undecodable (front msg) sizeof_snap_head (int (length (front msg))))"

text \<open>The one change of \<^verbatim>\<open>ceph_handle_snap\<close> to a session: \<^verbatim>\<open>s_seq++\<close>.\<close>

definition bump_session :: "mds_client \<Rightarrow> s32 \<Rightarrow> mds_client" where
  "bump_session mdsc mds =
     (case sessions mdsc mds of
        None \<Rightarrow> mdsc
      | Some session \<Rightarrow>
          mdsc\<lparr>sessions := (sessions mdsc)(mds \<mapsto> session\<lparr>s_seq := s_seq session + 1\<rparr>)\<rparr>)"

subsection \<open>Example messages\<close>

text \<open>Small numbers as little-endian fields of 8 and 4 bytes.\<close>

definition b8 :: "byte \<Rightarrow> byte list" where
  "b8 x = [x, 0, 0, 0, 0, 0, 0, 0]"

definition b4 :: "byte \<Rightarrow> byte list" where
  "b4 x = [x, 0, 0, 0]"

text \<open>An encoded snap head and an encoded realm, in the field order of the decoders.\<close>

definition enc_head :: "byte \<Rightarrow> byte \<Rightarrow> byte \<Rightarrow> byte \<Rightarrow> byte \<Rightarrow> byte list" where
  "enc_head op split n_inos n_realms trace_len =
     b4 op @ b8 split @ b4 n_inos @ b4 n_realms @ b4 trace_len"

definition enc_realm ::
    "byte \<Rightarrow> byte \<Rightarrow> byte \<Rightarrow> byte \<Rightarrow> byte \<Rightarrow> byte \<Rightarrow> byte \<Rightarrow> byte list" where
  "enc_realm i s c par since n_snaps n_prior =
     b8 i @ b8 s @ b8 c @ b8 par @ b8 since @ b4 n_snaps @ b4 n_prior"

text \<open>
  A client with a session to mds 0, the realm of inode 1 at address 0 (seq 1, created
  3, context of seq 1) and the inode 100 at address 0, which is in that realm and has
  two dirty pages.
\<close>

definition ex_live_realm :: snap_realm where
  "ex_live_realm = zero_realm\<lparr>ino := 1, nref := 1, seq := 1, created := 3,
                              inodes_with_caps := [0],
                              cached_context := Some \<lparr>sc_seq = 1, sc_snaps = []\<rparr>\<rparr>"

definition ex_live :: mds_client where
  "ex_live =
     \<lparr>snap_realms = (\<lambda>i. if i = 1 then Some 0 else None),
      realm_mem = (\<lambda>a. if a = 0 then Some ex_live_realm else None),
      next_realm = 1,
      inode_mem = (\<lambda>a. if a = 0 then Some (ex_inode\<lparr>i_snap_realm := Some 0\<rparr>) else None),
      snap_flush_list = [], sessions = (\<lambda>m. if m = 0 then Some \<lparr>s_seq = 7\<rparr> else None),
      alloc_ok = []\<rparr>"

text \<open>A trace of one realm: inode 1 moves on to seq 2 with the new snap 2.\<close>

definition ex_trace :: "byte list" where
  "ex_trace = enc_realm 1 2 3 0 0 1 0 @ b8 2"

text \<open>
  Messages over that client. From a client (entity type 8): a head and the trace. From
  mds 0: a head with a trace of eight bytes only; a head with the trace and one stray
  byte after it.
\<close>

definition ex_msg_client :: ceph_msg where
  "ex_msg_client = \<lparr>hdr_src_type = 8, hdr_src_num = 0, front = enc_head 0 0 0 0 56 @ ex_trace\<rparr>"

definition ex_msg_short :: ceph_msg where
  "ex_msg_short = \<lparr>hdr_src_type = 2, hdr_src_num = 0, front = enc_head 0 0 0 0 8 @ b8 1\<rparr>"

definition ex_msg_stray :: ceph_msg where
  "ex_msg_stray =
     \<lparr>hdr_src_type = 2, hdr_src_num = 0, front = enc_head 0 0 0 0 57 @ ex_trace @ [0]\<rparr>"

text \<open>
  A split from mds 0: the new realm of inode 5, created at 2 below the realm of inode
  1, takes the inode 100. The trace holds the new realm and then its parent.
\<close>

definition ex_msg_split :: ceph_msg where
  "ex_msg_split =
     \<lparr>hdr_src_type = 2, hdr_src_num = 0,
      front = enc_head 3 5 1 0 96 @ b8 100 @
              enc_realm 5 1 2 1 0 0 0 @ enc_realm 1 1 3 0 0 0 0\<rparr>"

text \<open>What a call returned with: the state, if it returned without a fault.\<close>

definition returned :: "(fault + mds_client) option \<Rightarrow> mds_client option" where
  "returned res = (case res of Some (Inr m) \<Rightarrow> Some m | _ \<Rightarrow> None)"

definition inode_realm :: "mds_client \<Rightarrow> iptr \<Rightarrow> rptr option" where
  "inode_realm m ci = (case inode_mem m ci of None \<Rightarrow> None | Some inode \<Rightarrow> i_snap_realm inode)"

text \<open>The same forest when the next allocation fails.\<close>

definition ex_forest_nomem :: mds_client where
  "ex_forest_nomem = ex_forest\<lparr>alloc_ok := [False]\<rparr>"

subsection \<open>Allocations to come\<close>

text \<open>
  The outcome of the call of \<^verbatim>\<open>kzalloc\<close> that comes after \<open>i\<close> other calls.
\<close>

definition alloc_outcome :: "mds_client \<Rightarrow> nat \<Rightarrow> bool" where
  "alloc_outcome mdsc i = (if i < length (alloc_ok mdsc) then alloc_ok mdsc ! i else True)"

text \<open>The live client when the next allocation fails.\<close>

definition ex_live_nomem :: mds_client where
  "ex_live_nomem = ex_live\<lparr>alloc_ok := [False]\<rparr>"

subsection \<open>Pending cap-snaps\<close>

text \<open>The number of pending cap-snaps (\<open>writing = True\<close>) on an inode's list.\<close>

definition pending_count :: "inode_info \<Rightarrow> nat" where
  "pending_count inode = length (filter cs_writing (i_cap_snaps inode))"

text \<open>The invariant: no inode has more than one pending cap-snap.\<close>

definition one_pending :: "mds_client \<Rightarrow> bool" where
  "one_pending mdsc \<longleftrightarrow>
     (\<forall>ci inode. inode_mem mdsc ci = Some inode \<longrightarrow> pending_count inode \<le> 1)"

text \<open>What the invariant asks of \<^verbatim>\<open>__ceph_flush_snaps\<close>, which is not in snap.c.\<close>

definition flush_keeps_one_pending :: "env \<Rightarrow> bool" where
  "flush_keeps_one_pending ev \<longleftrightarrow>
     (\<forall>m ci m'. one_pending m \<and> flush_inode_snaps ev m ci = Inr m' \<longrightarrow> one_pending m')"

section \<open>Properties\<close>

subsection \<open>Finishing a cap-snap\<close>

text \<open>
  C2 (as amended). \<^verbatim>\<open>__ceph_finish_cap_snap\<close> asserts \<^verbatim>\<open>BUG_ON(capsnap->writing)\<close>: it
  is to be called on a cap-snap with \<open>writing = False\<close>. Then the assertion does not
  fire. With \<open>dirty \<noteq> 0\<close> (so with \<open>dirty > 0\<close>), or with \<open>dirty = 0\<close> on an inode that
  is not yet on the snap flush list, the call returns: the cap-snap takes the inode's
  size, mtime, atime, ctime and time_warp_seq and stays on the inode's list; with
  \<open>dirty \<noteq> 0\<close> the flush list is unchanged and the result is 0, with \<open>dirty = 0\<close> the
  inode is appended to the flush list and the result is 1.
\<close>

theorem finish_cap_snap_not_writing:
  assumes "inode_mem mdsc ci = Some inode"
    and "k < length (i_cap_snaps inode)"
    and "\<not> cs_writing (i_cap_snaps inode ! k)"
  shows "ceph_finish_cap_snap mdsc ci k \<noteq> Inl BUG \<and>
         (cs_dirty (i_cap_snaps inode ! k) \<noteq> 0 \<or> ci \<notin> set (snap_flush_list mdsc) \<longrightarrow>
          (\<exists>mdsc' rc inode'.
             ceph_finish_cap_snap mdsc ci k = Inr (mdsc', rc) \<and>
             inode_mem mdsc' ci = Some inode' \<and>
             i_cap_snaps inode' = (i_cap_snaps inode)[k := (i_cap_snaps inode ! k)
                \<lparr>cs_size := i_size inode, cs_mtime := i_mtime inode, cs_atime := i_atime inode,
                 cs_ctime := i_ctime inode, cs_time_warp_seq := i_time_warp_seq inode\<rparr>] \<and>
             (if cs_dirty (i_cap_snaps inode ! k) \<noteq> 0
              then rc = 0 \<and> snap_flush_list mdsc' = snap_flush_list mdsc
              else rc = 1 \<and> snap_flush_list mdsc' = snap_flush_list mdsc @ [ci])))"
  using assms by (simp add: ceph_finish_cap_snap_def Let_def)

theorem finish_cap_snap_not_writing_witness:
  "\<exists>mdsc' inode'.
     ceph_finish_cap_snap ex_mdsc_clean 0 0 = Inr (mdsc', 1) \<and>
     inode_mem mdsc' 0 = Some inode' \<and>
     map cs_size (i_cap_snaps inode') = [4096] \<and>
     snap_flush_list mdsc' = [0]"
  using finish_cap_snap_not_writing
          [of ex_mdsc_clean 0 "ex_inode\<lparr>i_cap_snaps := [zero_cap_snap]\<rparr>" 0]
  by (auto simp: ex_mdsc_clean_def ex_mdsc_def ex_inode_def zero_cap_snap_def)

text \<open>
  The claim as the spec words it ("requires writing == true") fails: on a cap-snap
  with \<open>writing = True\<close> the assertion fires.
\<close>

theorem finish_cap_snap_writing_counterexample:
  "cs_writing (i_cap_snaps (the (inode_mem ex_mdsc_pending 0)) ! 0) \<and>
   ceph_finish_cap_snap ex_mdsc_pending 0 0 = Inl BUG"
  by (simp add: ceph_finish_cap_snap_def ex_mdsc_pending_def ex_mdsc_def ex_inode_def
      zero_cap_snap_def)

subsection \<open>Queueing a cap-snap\<close>

text \<open>
  What a call of \<^verbatim>\<open>ceph_queue_cap_snap\<close> that got its memory and returned has done to
  an inode without a pending cap-snap.
\<close>

lemma queue_cap_snap_appends:
  assumes "ceph_queue_cap_snap ev mdsc ci snapc = Inr mdsc'"
    and "kzalloc mdsc = (True, mdsc1)"
    and "inode_mem mdsc ci = Some inode"
    and "\<not> ceph_have_pending_cap_snap inode"
  shows "\<exists>sc inode' capsnap.
           snapc = Some sc \<and>
           inode_mem mdsc' ci = Some inode' \<and>
           i_cap_snaps inode' = i_cap_snaps inode @ [capsnap] \<and>
           i_wrbuffer_ref_head inode' = 0 \<and>
           cs_follows capsnap = sc_seq sc - 1 \<and>
           cs_context capsnap = Some sc \<and>
           cs_issued capsnap = caps_issued ev inode \<and>
           cs_dirty capsnap = i_wrbuffer_ref_head inode \<and>
           (if caps_used ev inode AND CAP_WR ev = 0
            then \<not> cs_writing capsnap \<and> cs_size capsnap = i_size inode \<and>
                 cs_mtime capsnap = i_mtime inode \<and> cs_atime capsnap = i_atime inode \<and>
                 cs_ctime capsnap = i_ctime inode \<and>
                 cs_time_warp_seq capsnap = i_time_warp_seq inode
            else cs_writing capsnap)"
proof -
  have m1: "inode_mem mdsc1 = inode_mem mdsc"
    using assms(2) by (auto simp: kzalloc_def split: list.splits)
  from assms(1,2,3,4) m1 obtain sc where sc: "snapc = Some sc"
    by (cases snapc) (auto simp: ceph_queue_cap_snap_def)
  show ?thesis
    using assms m1 sc
    by (auto simp: ceph_queue_cap_snap_def ceph_finish_cap_snap_def Let_def
        zero_cap_snap_def nth_append split: if_splits)
qed

lemma queue_cap_snap_returns:
  assumes "kzalloc mdsc = (True, mdsc1)"
    and "inode_mem mdsc ci = Some inode"
    and "\<not> ceph_have_pending_cap_snap inode"
    and "caps_used ev inode AND CAP_WR ev \<noteq> 0 \<or> i_wrbuffer_ref_head inode \<noteq> 0 \<or>
         ci \<notin> set (snap_flush_list mdsc)"
  shows "\<exists>mdsc'. ceph_queue_cap_snap ev mdsc ci (Some sc) = Inr mdsc'"
proof -
  have m1: "inode_mem mdsc1 = inode_mem mdsc" "snap_flush_list mdsc1 = snap_flush_list mdsc"
    using assms(1) by (auto simp: kzalloc_def split: list.splits)
  show ?thesis
    using assms m1
    by (auto simp: ceph_queue_cap_snap_def ceph_finish_cap_snap_def Let_def
        zero_cap_snap_def nth_append)
qed

lemma queue_cap_snap_no_memory:
  assumes "kzalloc mdsc = (False, mdsc1)"
  shows "ceph_queue_cap_snap ev mdsc ci snapc = Inr mdsc1 \<and>
         inode_mem mdsc1 = inode_mem mdsc \<and> snap_flush_list mdsc1 = snap_flush_list mdsc"
  using assms by (auto simp: ceph_queue_cap_snap_def kzalloc_def split: list.splits)

text \<open>
  C6 (as amended). \<^verbatim>\<open>ceph_queue_cap_snap\<close> on an inode with no pending cap-snap. When
  its allocation fails it returns at once: no cap-snap is appended and the inode, its
  head dirty-page count too, is as before. When the allocation succeeds and the context
  is not NULL, the new cap-snap is appended to the inode's list with \<open>follows = seq - 1\<close>
  of the context, the capabilities issued and the head dirty-page count, which is
  reset to zero on the inode; when no write capability is in use the cap-snap is
  finalized at once (size, mtime, atime, ctime, time_warp_seq taken) with
  \<open>writing = False\<close>, otherwise it is pending. Finalizing a cap-snap without dirty
  pages puts the inode on the snap flush list, so the inode must not be on it already.
\<close>

theorem queue_cap_snap_new:
  assumes "inode_mem mdsc ci = Some inode"
    and "\<not> ceph_have_pending_cap_snap inode"
  shows "(\<not> fst (kzalloc mdsc) \<longrightarrow>
            ceph_queue_cap_snap ev mdsc ci snapc = Inr (snd (kzalloc mdsc)) \<and>
            inode_mem (snd (kzalloc mdsc)) = inode_mem mdsc \<and>
            snap_flush_list (snd (kzalloc mdsc)) = snap_flush_list mdsc) \<and>
         (fst (kzalloc mdsc) \<and>
          (caps_used ev inode AND CAP_WR ev \<noteq> 0 \<or> i_wrbuffer_ref_head inode \<noteq> 0 \<or>
           ci \<notin> set (snap_flush_list mdsc)) \<longrightarrow>
            (\<exists>mdsc' inode' capsnap.
               ceph_queue_cap_snap ev mdsc ci (Some sc) = Inr mdsc' \<and>
               inode_mem mdsc' ci = Some inode' \<and>
               i_cap_snaps inode' = i_cap_snaps inode @ [capsnap] \<and>
               i_wrbuffer_ref_head inode' = 0 \<and>
               cs_follows capsnap = sc_seq sc - 1 \<and>
               cs_context capsnap = Some sc \<and>
               cs_issued capsnap = caps_issued ev inode \<and>
               cs_dirty capsnap = i_wrbuffer_ref_head inode \<and>
               (if caps_used ev inode AND CAP_WR ev = 0
                then \<not> cs_writing capsnap \<and> cs_size capsnap = i_size inode \<and>
                     cs_mtime capsnap = i_mtime inode \<and> cs_atime capsnap = i_atime inode \<and>
                     cs_ctime capsnap = i_ctime inode \<and>
                     cs_time_warp_seq capsnap = i_time_warp_seq inode
                else cs_writing capsnap)))"
proof (intro conjI impI)
  assume "\<not> fst (kzalloc mdsc)"
  then have k: "kzalloc mdsc = (False, snd (kzalloc mdsc))" by (cases "kzalloc mdsc") simp
  from queue_cap_snap_no_memory[OF k]
  show "ceph_queue_cap_snap ev mdsc ci snapc = Inr (snd (kzalloc mdsc))"
    and "inode_mem (snd (kzalloc mdsc)) = inode_mem mdsc"
    and "snap_flush_list (snd (kzalloc mdsc)) = snap_flush_list mdsc"
    by simp_all
next
  assume a: "fst (kzalloc mdsc) \<and>
          (caps_used ev inode AND CAP_WR ev \<noteq> 0 \<or> i_wrbuffer_ref_head inode \<noteq> 0 \<or>
           ci \<notin> set (snap_flush_list mdsc))"
  then have k: "kzalloc mdsc = (True, snd (kzalloc mdsc))" by (cases "kzalloc mdsc") simp
  from queue_cap_snap_returns[OF k assms] a obtain mdsc' where
    q: "ceph_queue_cap_snap ev mdsc ci (Some sc) = Inr mdsc'" by blast
  from queue_cap_snap_appends[OF q k assms] q
  show "\<exists>mdsc' inode' capsnap.
               ceph_queue_cap_snap ev mdsc ci (Some sc) = Inr mdsc' \<and>
               inode_mem mdsc' ci = Some inode' \<and>
               i_cap_snaps inode' = i_cap_snaps inode @ [capsnap] \<and>
               i_wrbuffer_ref_head inode' = 0 \<and>
               cs_follows capsnap = sc_seq sc - 1 \<and>
               cs_context capsnap = Some sc \<and>
               cs_issued capsnap = caps_issued ev inode \<and>
               cs_dirty capsnap = i_wrbuffer_ref_head inode \<and>
               (if caps_used ev inode AND CAP_WR ev = 0
                then \<not> cs_writing capsnap \<and> cs_size capsnap = i_size inode \<and>
                     cs_mtime capsnap = i_mtime inode \<and> cs_atime capsnap = i_atime inode \<and>
                     cs_ctime capsnap = i_ctime inode \<and>
                     cs_time_warp_seq capsnap = i_time_warp_seq inode
                else cs_writing capsnap)"
    by auto
qed

text \<open>
  The example inode takes a cap-snap when the allocation succeeds, and is left as it
  is when the allocation fails.
\<close>

theorem queue_cap_snap_new_witness:
  "(\<exists>mdsc' inode' capsnap.
      ceph_queue_cap_snap ex_env ex_mdsc 0 (Some \<lparr>sc_seq = 0, sc_snaps = [4, 2]\<rparr>) = Inr mdsc' \<and>
      inode_mem mdsc' 0 = Some inode' \<and>
      i_cap_snaps inode' = [capsnap] \<and>
      i_wrbuffer_ref_head inode' = 0 \<and>
      cs_follows capsnap = 18446744073709551615 \<and>
      cs_dirty capsnap = 2 \<and> cs_issued capsnap = 5 \<and> cs_size capsnap = 4096 \<and>
      \<not> cs_writing capsnap) \<and>
   ceph_queue_cap_snap ex_env ex_mdsc_nomem 0 None = Inr ex_mdsc"
  using queue_cap_snap_new
          [of ex_mdsc 0 ex_inode ex_env None "\<lparr>sc_seq = 0, sc_snaps = [4, 2]\<rparr>"]
        queue_cap_snap_new
          [of ex_mdsc_nomem 0 ex_inode ex_env None "\<lparr>sc_seq = 0, sc_snaps = [4, 2]\<rparr>"]
  by (auto simp: kzalloc_def ceph_have_pending_cap_snap_def ex_mdsc_nomem_def ex_mdsc_def
      ex_inode_def ex_env_def)

text \<open>
  The claim as the spec words it fails when the allocation of the cap-snap fails: the
  inode has no pending cap-snap, and after the call its list of cap-snaps is still
  empty and its head dirty-page count is still 2.
\<close>

theorem queue_cap_snap_no_memory_counterexample:
  "map_option i_cap_snaps (inode_mem ex_mdsc_nomem 0) = Some [] \<and>
   map_option i_wrbuffer_ref_head (inode_mem ex_mdsc_nomem 0) = Some 2 \<and>
   (case ceph_queue_cap_snap ex_env ex_mdsc_nomem 0 (Some \<lparr>sc_seq = 1, sc_snaps = []\<rparr>) of
      Inl f \<Rightarrow> False
    | Inr m \<Rightarrow>
        map_option i_cap_snaps (inode_mem m 0) = Some [] \<and>
        map_option i_wrbuffer_ref_head (inode_mem m 0) = Some 2)"
  by code_simp

subsection \<open>Building a snap context\<close>

lemma mset_insort_cmp: "mset (insort_cmp cmp x ys) = add_mset x (mset ys)"
  by (induction ys) auto

lemma mset_sort_cmp: "mset (sort_cmp cmp xs) = mset xs"
  by (induction xs) (auto simp: mset_insort_cmp)

lemma set_insort_cmp: "set (insort_cmp cmp x ys) = insert x (set ys)"
  by (induction ys) auto

lemma sorted_insort_rev:
  "sorted (rev ys) \<Longrightarrow> sorted (rev (insort_cmp cmpu64_rev x ys))"
  by (induction ys) (auto simp: sorted_append cmpu64_rev_def set_insort_cmp split: if_splits)

lemma sorted_sort_rev: "sorted (rev (sort_cmp cmpu64_rev xs))"
  by (induction xs) (auto simp: sorted_insort_rev)

lemma sort_cmp_rev: "sort_cmp cmpu64_rev xs = rev (sort xs)"
proof -
  have "sort xs = rev (sort_cmp cmpu64_rev xs)"
    by (rule properties_for_sort) (simp_all add: mset_sort_cmp sorted_sort_rev)
  then show ?thesis by simp
qed

lemma kzalloc_realm_at: "kzalloc mdsc = (b, mdsc1) \<Longrightarrow> realm_at mdsc1 = realm_at mdsc"
  by (auto simp: kzalloc_def realm_at_def fun_eq_iff split: list.splits)

lemma realm_at_set_realm:
  "realm_at (set_realm mdsc a r) x =
     (if x < next_realm mdsc then (if x = a then Some r else realm_mem mdsc x) else None)"
  by (simp add: realm_at_def set_realm_def)

lemma realm_at_lt: "realm_at mdsc x = Some r \<Longrightarrow> x < next_realm mdsc"
  by (simp add: realm_at_def split: if_splits)

lemma realm_at_set_realm_present:
  "realm_at mdsc a = Some r0 \<Longrightarrow> realm_at (set_realm mdsc a r) x = (if x = a then Some r else realm_at mdsc x)"
  by (auto simp: realm_at_def set_realm_def split: if_splits)

lemma build_fail_other:
  "build_fail mdsc realm err = Inr (mdsc', rc) \<Longrightarrow> x \<noteq> realm \<Longrightarrow> realm_at mdsc' x = realm_at mdsc x"
  by (auto simp: build_fail_def realm_at_set_realm_present split: option.splits)

lemma build_fail_rc:
  "build_fail mdsc realm err = Inr (mdsc', rc) \<Longrightarrow> rc = err"
  by (auto simp: build_fail_def split: option.splits)

lemma build_own_other:
  "build_own mdsc realm = Inr (mdsc', rc) \<Longrightarrow> x \<noteq> realm \<Longrightarrow> realm_at mdsc' x = realm_at mdsc x"
  by (auto simp: build_own_def realm_at_set_realm_present build_fail_def
      dest!: kzalloc_realm_at split: option.splits sum.splits if_splits prod.splits bool.splits)







lemma new_snap_context_built:
  assumes "new_snap_context r pctx = Inr c"
    and "parent_context mdsc r = Inr pctx"
  shows "built_context mdsc r c"
  using assms
  by (auto simp: new_snap_context_def parent_context_def built_context_def Let_def
      own_snaps_def prior_snaps_def memcpy_u64_def sort_cmp_rev max_def
      split: option.splits sum.splits if_splits)


lemma build_own_cases:
  assumes "build_own mdsc realm = Inr (mdsc', rc)"
    and "realm_at mdsc realm = Some r"
  shows "realm_at mdsc' realm = Some (r\<lparr>cached_context := realm_context mdsc' realm\<rparr>) \<and>
         (if realm_context mdsc' realm = cached_context r then True
          else (case realm_context mdsc' realm of
                  None \<Rightarrow> rc = - ENOMEM
                | Some c \<Rightarrow> rc = 0 \<and> built_context mdsc r c))"
proof -
  from assms obtain pctx where pctx: "parent_context mdsc r = Inr pctx"
    by (auto simp: build_own_def split: sum.splits)
  show ?thesis
  proof (cases "context_unchanged r pctx")
    case True
    then show ?thesis using assms pctx by (auto simp: build_own_def realm_context_def)
  next
    case False
    obtain b mdsc1 where k: "kzalloc mdsc = (b, mdsc1)" by (cases "kzalloc mdsc")
    note ra = kzalloc_realm_at[OF k]
    show ?thesis
    proof (cases b)
      case False
      then show ?thesis using assms pctx k \<open>\<not> context_unchanged r pctx\<close> ra
        by (auto simp: build_own_def realm_context_def build_fail_def realm_at_set_realm_present
            split: option.splits)
    next
      case True
      then obtain c where c: "new_snap_context r pctx = Inr c"
        and m: "mdsc' = set_realm mdsc1 realm (r\<lparr>cached_context := Some c\<rparr>)" and rc: "rc = 0"
        using assms pctx k \<open>\<not> context_unchanged r pctx\<close>
        by (auto simp: build_own_def split: sum.splits)
      have "realm_at mdsc' realm = Some (r\<lparr>cached_context := Some c\<rparr>)"
        using m ra assms(2) by (simp add: realm_at_set_realm_present)
      then show ?thesis
        using rc new_snap_context_built[OF c pctx] by (simp add: realm_context_def)
    qed
  qed
qed

lemma build_mono:
  "build_snap_context n mdsc q = Some res \<Longrightarrow> n \<le> m \<Longrightarrow> build_snap_context m mdsc q = Some res"
proof (induction n arbitrary: m q res)
  case 0
  then show ?case by simp
next
  case (Suc n)
  then obtain m' where m: "m = Suc m'" and le: "n \<le> m'" by (cases m) auto
  show ?case
    using Suc.prems(1) Suc.IH[OF _ le] unfolding m
    by (auto split: option.splits sum.splits prod.splits if_splits)
qed

lemma build_untouched_slow:
  "build_snap_context n mdsc q = Some (Inr (mdsc1, err)) \<Longrightarrow>
   (\<forall>m\<le>n. build_snap_context m mdsc x = None) \<Longrightarrow> realm_at mdsc1 x = realm_at mdsc x"
proof (induction n arbitrary: q mdsc1 err)
  case 0
  then show ?case by simp
next
  case (Suc n)
  have xq: "x \<noteq> q" using Suc.prems by auto
  have less: "\<forall>m\<le>n. build_snap_context m mdsc x = None" using Suc.prems(2) by auto
  show ?case
    using Suc.prems(1) xq Suc.IH[OF _ less]
    by (auto split: option.splits sum.splits prod.splits if_splits
        dest: build_own_other build_fail_other)
qed

lemma build_Suc_cases:
  assumes "build_snap_context (Suc n) mdsc q = Some (Inr (mdsc1, err))"
  obtains (direct) "build_own mdsc q = Inr (mdsc1, err)"
  | (climb) r p pr m1 e where "realm_at mdsc q = Some r" "parent r = Some p"
      "realm_at mdsc p = Some pr" "cached_context pr = None"
      "build_snap_context n mdsc p = Some (Inr (m1, e))"
      "if e \<noteq> 0 then build_fail m1 q e = Inr (mdsc1, err) else build_own m1 q = Inr (mdsc1, err)"
  using assms
  by (auto split: option.splits sum.splits prod.splits if_splits)

lemma build_untouched_ctx:
  "build_snap_context n mdsc q = Some (Inr (mdsc1, err)) \<Longrightarrow>
   realm_at mdsc x = Some rx \<Longrightarrow> cached_context rx \<noteq> None \<Longrightarrow> x \<noteq> q \<Longrightarrow>
   realm_at mdsc1 x = Some rx"
proof (induction n arbitrary: q mdsc1 err)
  case 0
  then show ?case by simp
next
  case (Suc n)
  from Suc.prems(1) show ?case
  proof (cases rule: build_Suc_cases)
    case direct
    then show ?thesis using Suc.prems(2,4) by (simp add: build_own_other)
  next
    case (climb r p pr m1 e)
    have "x \<noteq> p" using climb(3,4) Suc.prems(2,3) by auto
    then have "realm_at m1 x = Some rx"
      using Suc.IH[OF climb(5) Suc.prems(2,3)] by simp
    then show ?thesis
      using climb(6) Suc.prems(4)
      by (auto split: if_splits simp: build_own_other build_fail_other)
  qed
qed


lemma built_context_other:
  assumes "built_context mdsc r c"
    and "\<And>p. parent r = Some p \<Longrightarrow> realm_at mdsc' p = realm_at mdsc p"
  shows "built_context mdsc' r c"
  using assms by (auto simp: built_context_def split: option.splits)

lemma build_own_rebuilt:
  assumes "build_own mdsc realm = Inr (mdsc', rc)"
    and "realm_at mdsc realm = Some r"
    and "realm_at mdsc' realm = Some r'"
    and "cached_context r' \<noteq> cached_context r"
    and "parent r \<noteq> Some realm"
    and "rc = 0"
  shows "\<exists>c. r' = r\<lparr>cached_context := Some c\<rparr> \<and> built_context mdsc' r c"
proof -
  note bc = build_own_cases[OF assms(1,2)]
  have r': "r' = r\<lparr>cached_context := realm_context mdsc' realm\<rparr>"
    using bc assms(3) by simp
  then have ne: "realm_context mdsc' realm \<noteq> cached_context r"
    using assms(4) by (cases r) auto
  obtain c where c: "realm_context mdsc' realm = Some c"
    using bc ne assms(6) by (cases "realm_context mdsc' realm") (simp_all add: ENOMEM_def)
  have b: "built_context mdsc r c"
    using bc ne c by simp
  have "built_context mdsc' r c"
  proof (rule built_context_other[OF b])
    fix p assume "parent r = Some p"
    then have "p \<noteq> realm" using assms(5) by auto
    then show "realm_at mdsc' p = realm_at mdsc p" by (rule build_own_other[OF assms(1)])
  qed
  with r' c show ?thesis by (intro exI[of _ c]) simp
qed


lemma build_climb_step:
  assumes "realm_at mdsc q = Some r" "parent r = Some p" "realm_at mdsc p = Some pr"
    "cached_context pr = None" "build_snap_context j mdsc p = None"
  shows "build_snap_context (Suc j) mdsc q = None"
  using assms by simp

lemma build_parent_leaves_child:
  assumes "build_snap_context n mdsc p = Some (Inr (m1, e))"
    and "realm_at mdsc q = Some r" "parent r = Some p" "realm_at mdsc p = Some pr"
    and "cached_context pr = None"
  shows "realm_at m1 q = Some r"
proof (cases "cached_context r")
  case (Some c)
  have "q \<noteq> p" using assms(2,4,5) Some by auto
  then show ?thesis using build_untouched_ctx[OF assms(1,2)] Some by simp
next
  case None
  define k where "k = (LEAST k. build_snap_context k mdsc p \<noteq> None)"
  have ex: "build_snap_context n mdsc p \<noteq> None" using assms(1) by simp
  have kn: "k \<le> n" unfolding k_def using ex by (rule Least_le)
  have "build_snap_context k mdsc p \<noteq> None" unfolding k_def using ex by (rule LeastI)
  then obtain res where res: "build_snap_context k mdsc p = Some res" by auto
  from build_mono[OF res kn] assms(1) have res': "res = Inr (m1, e)" by simp
  have least: "\<And>j. j < k \<Longrightarrow> build_snap_context j mdsc p = None"
    unfolding k_def using not_less_Least by blast
  have "\<forall>m\<le>k. build_snap_context m mdsc q = None"
  proof (intro allI impI)
    fix m assume "m \<le> k"
    show "build_snap_context m mdsc q = None"
    proof (cases m)
      case 0
      then show ?thesis by simp
    next
      case (Suc j)
      then have "j < k" using \<open>m \<le> k\<close> by simp
      then show ?thesis
        unfolding Suc using build_climb_step[OF assms(2-5)] least by blast
    qed
  qed
  from build_untouched_slow[OF res[unfolded res'] this] assms(2) show ?thesis by simp
qed

text \<open>
  C1 (as amended). When \<^verbatim>\<open>build_snap_context\<close> returns 0 and has replaced the realm's
  cached context (it did not leave by the "unchanged" return), the new context is the
  built context of the realm: its snaps are the descending sort of the parent's cached
  entries that are \<open>\<ge> parent_since\<close>, the realm's own snaps and its prior parent snaps,
  with every duplicate kept (the code sorts and removes nothing), and its seq is
  \<open>max\<close> of the realm's seq and the seq of the parent's context, or the realm's seq when
  there is no parent. Nothing else of the realm changes.
\<close>

theorem build_snap_context_rebuilt:
  assumes "build_snap_context fuel mdsc realm = Some (Inr (mdsc', 0))"
    and "realm_at mdsc realm = Some r"
    and "realm_at mdsc' realm = Some r'"
    and "cached_context r' \<noteq> cached_context r"
    and "parent r \<noteq> Some realm"
  shows "\<exists>c. r' = r\<lparr>cached_context := Some c\<rparr> \<and> built_context mdsc' r c"
proof (cases fuel)
  case 0
  then show ?thesis using assms(1) by simp
next
  case (Suc n)
  from assms(1)[unfolded Suc] show ?thesis
  proof (cases rule: build_Suc_cases)
    case direct
    then show ?thesis using build_own_rebuilt assms(2-5) by blast
  next
    case (climb r0 p pr m1 e)
    have r0: "r0 = r" using climb(1) assms(2) by simp
    have e: "e = 0" using climb(6) by (auto split: if_splits dest: build_fail_rc)
    then have own: "build_own m1 realm = Inr (mdsc', 0)" using climb(6) by simp
    have "realm_at m1 realm = Some r"
      using build_parent_leaves_child[OF climb(5) assms(2) climb(2)[unfolded r0] climb(3,4)] .
    then show ?thesis using build_own_rebuilt[OF own _ assms(3,4,5)] by blast
  qed
qed

theorem build_snap_context_rebuilt_witness:
  "\<exists>mdsc'. build_snap_context (Suc (Suc 0)) ex_forest 1 = Some (Inr (mdsc', 0)) \<and>
     realm_at mdsc' 1 = Some (ex_child\<lparr>cached_context := Some \<lparr>sc_seq = 5, sc_snaps = [5, 2, 1]\<rparr>\<rparr>) \<and>
     built_context mdsc' ex_child \<lparr>sc_seq = 5, sc_snaps = [5, 2, 1]\<rparr>"
proof -
  define m1 where "m1 = set_realm ex_forest 0
     (ex_root\<lparr>cached_context := Some \<lparr>sc_seq = 5, sc_snaps = [5, 3]\<rparr>\<rparr>)"
  define m2 where "m2 = set_realm m1 1
     (ex_child\<lparr>cached_context := Some \<lparr>sc_seq = 5, sc_snaps = [5, 2, 1]\<rparr>\<rparr>)"
  have run: "build_snap_context (Suc (Suc 0)) ex_forest 1 = Some (Inr (m2, 0))"
    by (simp add: build_own_def parent_context_def context_unchanged_def
        new_snap_context_def kzalloc_def memcpy_u64_def realm_at_def set_realm_def
        ex_forest_def ex_root_def ex_child_def ex_mdsc_def zero_realm_def cmpu64_rev_def
        m1_def m2_def)
  have pre: "realm_at ex_forest 1 = Some ex_child"
    by (simp add: realm_at_def ex_forest_def ex_mdsc_def)
  have post: "realm_at m2 1 =
      Some (ex_child\<lparr>cached_context := Some \<lparr>sc_seq = 5, sc_snaps = [5, 2, 1]\<rparr>\<rparr>)"
    by (simp add: realm_at_def set_realm_def m1_def m2_def ex_forest_def ex_mdsc_def)
  have "\<exists>c. ex_child\<lparr>cached_context := Some \<lparr>sc_seq = 5, sc_snaps = [5, 2, 1]\<rparr>\<rparr> =
            ex_child\<lparr>cached_context := Some c\<rparr> \<and> built_context m2 ex_child c"
    using build_snap_context_rebuilt[OF run pre post]
    by (simp add: ex_child_def zero_realm_def)
  then have "built_context m2 ex_child \<lparr>sc_seq = 5, sc_snaps = [5, 2, 1]\<rparr>"
    by (auto simp: ex_child_def zero_realm_def)
  with run post show ?thesis by blast
qed

text \<open>
  The claim as the spec words it ("duplicate-free", "deduplicate on the fly") fails: a
  snap that is both among the realm's snaps and among its prior parent snaps stands
  twice in the built context.
\<close>

theorem build_snap_context_duplicates_counterexample:
  "build_snap_context (Suc 0) ex_dup 0 =
     Some (Inr (set_realm ex_dup 0
                  (ex_dup_realm\<lparr>cached_context := Some \<lparr>sc_seq = 7, sc_snaps = [5, 5]\<rparr>\<rparr>), 0)) \<and>
   \<not> distinct [5, 5 :: u64]"
  by (simp add: build_own_def parent_context_def context_unchanged_def new_snap_context_def
      kzalloc_def memcpy_u64_def realm_at_def ex_dup_def ex_dup_realm_def ex_mdsc_def
      zero_realm_def cmpu64_rev_def)

subsection \<open>Realm operations leave inodes, flush list and sessions alone\<close>

lemma realms_only_refl: "realms_only m m"
  by (simp add: realms_only_def)

lemma realms_only_trans: "realms_only a b \<Longrightarrow> realms_only b c \<Longrightarrow> realms_only a c"
  by (simp add: realms_only_def)

lemma realms_only_kzalloc: "kzalloc m = (b, m1) \<Longrightarrow> realms_only m m1"
  by (auto simp: kzalloc_def realms_only_def split: list.splits)

lemma realms_only_set_realm: "realms_only m (set_realm m a r)"
  by (simp add: realms_only_def set_realm_def)

lemma realms_only_get:
  "ceph_get_snap_realm m i = Inr (m', x) \<Longrightarrow> realms_only m m'"
  by (auto simp: ceph_get_snap_realm_def realms_only_def set_realm_def kzalloc_def Let_def
      split: option.splits list.splits prod.splits bool.splits if_splits)

lemma realms_only_del_child:
  "del_child_item m realm p = Inr m' \<Longrightarrow> realms_only m m'"
  by (auto simp: del_child_item_def realms_only_def set_realm_def split: option.splits)

lemma realms_only_put:
  "ceph_put_snap_realm m realm = Inr m' \<Longrightarrow> realms_only m m'"
proof (induction m realm arbitrary: m' rule: ceph_put_snap_realm.induct)
  case (1 mdsc realm)
  from "1.prems" obtain r where r: "realm_at mdsc realm = Some r"
    by (subst (asm) ceph_put_snap_realm.simps) (auto split: option.splits)
  let ?m1 = "set_realm mdsc realm (r\<lparr>nref := nref r - 1\<rparr>)"
  have m1: "realms_only mdsc ?m1" by (rule realms_only_set_realm)
  show ?case
  proof (cases "nref r - 1 = 0")
    case False
    then have "m' = ?m1" using "1.prems" r
      by (subst (asm) ceph_put_snap_realm.simps) (simp add: Let_def)
    then show ?thesis using m1 by simp
  next
    case True
    show ?thesis
    proof (cases "parent r")
      case None
      then show ?thesis using "1.prems" r True m1
        by (subst (asm) ceph_put_snap_realm.simps)
           (auto simp: Let_def realms_only_def split: option.splits)
    next
      case (Some p)
      from "1.prems" r True Some obtain m2 m3 where
        m2: "del_child_item ?m1 realm p = Inr m2" and
        m3: "ceph_put_snap_realm m2 p = Inr m3" and
        m': "realms_only m3 m'"
        by (subst (asm) ceph_put_snap_realm.simps)
           (auto simp: Let_def realms_only_def split: option.splits sum.splits)
      have "realms_only m2 m3"
        using "1.IH"[OF r refl True Some m2 m3] .
      then show ?thesis
        using m1 realms_only_del_child[OF m2] m' by (blast intro: realms_only_trans)
    qed
  qed
qed


lemma realms_only_adjust:
  assumes "adjust_snap_realm_parent m realm parentino = Inr (m', rc)"
  shows "realms_only m m'"
proof -
  from assms obtain r where r: "realm_at m realm = Some r"
    by (auto simp: adjust_snap_realm_parent_def split: option.splits)
  show ?thesis
  proof (cases "parent_ino r = parentino")
    case True
    then show ?thesis using assms r by (simp add: adjust_snap_realm_parent_def realms_only_refl)
  next
    case False
    from assms r False obtain m1 np where g: "ceph_get_snap_realm m parentino = Inr (m1, np)"
      by (auto simp: adjust_snap_realm_parent_def split: sum.splits)
    note g1 = realms_only_get[OF g]
    show ?thesis
    proof (cases np)
      case None
      then show ?thesis using assms r False g g1 by (simp add: adjust_snap_realm_parent_def)
    next
      case (Some new_parent)
      from assms r False g Some obtain r1 where r1: "realm_at m1 realm = Some r1"
        by (auto simp: adjust_snap_realm_parent_def split: option.splits)
      from assms r False g Some r1 obtain m3 where
        m3: "(case parent r1 of None \<Rightarrow> Inr m1
              | Some old \<Rightarrow> (case del_child_item m1 realm old of Inl f \<Rightarrow> Inl f
                             | Inr mdsc2 \<Rightarrow> ceph_put_snap_realm mdsc2 old)) = Inr m3"
        by (auto simp: adjust_snap_realm_parent_def split: sum.splits)
      have m13: "realms_only m1 m3"
        using m3 by (auto split: option.splits sum.splits
            intro: realms_only_refl realms_only_trans realms_only_del_child realms_only_put)
      have "realms_only m3 m'"
        using assms r False g Some r1 m3
        by (auto simp: adjust_snap_realm_parent_def Let_def realms_only_def set_realm_def
            split: option.splits)
      then show ?thesis using g1 m13 by (blast intro: realms_only_trans)
    qed
  qed
qed

lemma realms_only_build_fail:
  "build_fail m realm err = Inr (m', rc) \<Longrightarrow> realms_only m m'"
  by (auto simp: build_fail_def realms_only_set_realm split: option.splits)

lemma realms_only_build_own:
  "build_own m realm = Inr (m', rc) \<Longrightarrow> realms_only m m'"
  by (auto simp: build_own_def split: option.splits sum.splits if_splits prod.splits bool.splits
      intro: realms_only_refl realms_only_trans[OF realms_only_kzalloc realms_only_build_fail]
             realms_only_trans[OF realms_only_kzalloc realms_only_set_realm])

lemma realms_only_build:
  "build_snap_context n m realm = Some (Inr (m', rc)) \<Longrightarrow> realms_only m m'"
proof (induction n arbitrary: realm m' rc)
  case 0
  then show ?case by simp
next
  case (Suc n)
  from Suc.prems show ?case
  proof (cases rule: build_Suc_cases)
    case direct
    then show ?thesis by (rule realms_only_build_own)
  next
    case (climb r p pr m1 e)
    have "realms_only m m1" using Suc.IH[OF climb(5)] .
    moreover have "realms_only m1 m'"
      using climb(6) by (auto split: if_splits intro: realms_only_build_fail realms_only_build_own)
    ultimately show ?thesis by (rule realms_only_trans)
  qed
qed

lemma realms_only_rebuild:
  "rebuild_snap_realms n m realm = Some (Inr m') \<Longrightarrow> realms_only m m'"
  "rebuild_children n m cs = Some (Inr m') \<Longrightarrow> realms_only m m'"
proof (induction n m realm and n m cs arbitrary: m' and m' rule: rebuild_snap_realms_rebuild_children.induct)
  case (1 mdsc realm)
  then show ?case by simp
next
  case (2 fuel mdsc realm)
  from "2.prems" obtain m1 err r where
    b: "build_snap_context fuel mdsc realm = Some (Inr (m1, err))" and
    r: "realm_at m1 realm = Some r" and
    c: "rebuild_children fuel m1 (children r) = Some (Inr m')"
    by (auto split: option.splits sum.splits prod.splits)
  from "2.IH"[OF b refl refl r c] realms_only_build[OF b] show ?case
    by (blast intro: realms_only_trans)
next
  case (3 fuel mdsc)
  then show ?case by (simp add: realms_only_refl)
next
  case (4 fuel mdsc child rest)
  from "4.prems" obtain m1 where
    a: "rebuild_snap_realms fuel mdsc child = Some (Inr m1)" and
    b: "rebuild_children fuel m1 rest = Some (Inr m')"
    by (auto split: option.splits sum.splits)
  from "4.IH"(1)[OF a] "4.IH"(2)[OF a refl b] show ?case
    by (blast intro: realms_only_trans)
qed

lemma realms_only_dup_array:
  "dup_array m buf src num = Inr (m', xs, err) \<Longrightarrow> realms_only m m'"
  by (auto simp: dup_array_def split: if_splits prod.splits bool.splits option.splits
      intro: realms_only_refl realms_only_kzalloc)

lemma realms_only_update_params:
  assumes "update_realm_params m buf realm ri sp pp iv = Inr (m', out)"
  shows "realms_only m m'"
proof -
  have *: "\<And>a b c x r. realms_only a b \<Longrightarrow> realms_only b c \<Longrightarrow> realms_only a (set_realm c x r)"
    by (simp add: realms_only_def set_realm_def)
  show ?thesis
    using assms
    by (auto simp: update_realm_params_def Let_def
        split: option.splits if_splits sum.splits prod.splits
        intro: realms_only_refl * realms_only_dup_array)
qed

subsection \<open>Cap-snaps are queued before a realm is updated\<close>

lemma inodes_only_refl: "inodes_only m m"
  by (simp add: inodes_only_def)

lemma inodes_only_trans: "inodes_only a b \<Longrightarrow> inodes_only b c \<Longrightarrow> inodes_only a c"
  by (simp add: inodes_only_def)

lemma inodes_only_kzalloc: "kzalloc m = (b, m1) \<Longrightarrow> inodes_only m m1"
  by (auto simp: kzalloc_def inodes_only_def split: list.splits)

lemma inodes_only_finish:
  "ceph_finish_cap_snap m ci k = Inr (m', rc) \<Longrightarrow> inodes_only m m'"
  by (auto simp: ceph_finish_cap_snap_def inodes_only_def Let_def split: option.splits if_splits)

lemma inodes_only_queue:
  assumes "ceph_queue_cap_snap ev m ci snapc = Inr m'"
  shows "inodes_only m m'"
proof -
  obtain b m1 where k: "kzalloc m = (b, m1)" by (cases "kzalloc m")
  note k1 = inodes_only_kzalloc[OF k]
  have "inodes_only m1 m'"
    using assms k
    by (auto simp: ceph_queue_cap_snap_def Let_def inodes_only_refl
        split: option.splits if_splits sum.splits bool.splits
        dest!: inodes_only_finish) (auto simp: inodes_only_def)
  with k1 show ?thesis by (rule inodes_only_trans)
qed

lemma inodes_only_queue_all:
  "queue_cap_snaps ev m cis snapc = Inr m' \<Longrightarrow> inodes_only m m'"
  by (induction cis arbitrary: m)
     (auto split: sum.splits intro: inodes_only_refl inodes_only_trans inodes_only_queue)

lemma sessions_inodes_only: "inodes_only m m' \<Longrightarrow> sessions m' = sessions m"
  by (simp add: inodes_only_def)

lemma sessions_realms_only: "realms_only m m' \<Longrightarrow> sessions m' = sessions m"
  by (simp add: realms_only_def)

lemma realm_at_inodes_only: "inodes_only m m' \<Longrightarrow> realm_at m' = realm_at m"
  by (auto simp: inodes_only_def realm_at_def fun_eq_iff)


lemma trace_step_cases:
  assumes "trace_step fuel ev m buf p e del first iv = Some (Inr (m', out))"
  obtains (bad) "m' = m" "out = Inl (- EINVAL)"
      "e < p + sizeof_snap_realm \<or>
       (\<exists>ri. decode_snap_realm buf p = Some ri \<and>
             e < p + sizeof_snap_realm + 8 * uint (ri_num_snaps ri + ri_num_prior_parent_snaps ri))"
  | (nomem) ri where "decode_snap_realm buf p = Some ri"
      "ceph_get_snap_realm m (ri_ino ri) = Inr (m', None)" "out = Inl (- ENOMEM)"
  | (run) ri m1 realm r1 m2 m3 where
      "p + sizeof_snap_realm \<le> e"
      "decode_snap_realm buf p = Some ri"
      "p + sizeof_snap_realm + 8 * uint (ri_num_snaps ri + ri_num_prior_parent_snaps ri) \<le> e"
      "ceph_get_snap_realm m (ri_ino ri) = Inr (m1, Some realm)"
      "realm_at m1 realm = Some r1"
      "m2 = (case first of None \<Rightarrow> set_realm m1 realm (r1\<lparr>nref := nref r1 + 1\<rparr>) | Some f \<Rightarrow> m1)"
      "trace_queue ev m2 realm ri del = Inr m3"
      "realms_only m3 m'"
proof (cases "p + sizeof_snap_realm > e")
  case True
  then show ?thesis using assms bad by (simp add: trace_step_def)
next
  case fits: False
  from assms fits obtain ri where ri: "decode_snap_realm buf p = Some ri"
    by (auto simp: trace_step_def split: option.splits)
  show ?thesis
  proof (cases "p + sizeof_snap_realm + 8 * uint (ri_num_snaps ri + ri_num_prior_parent_snaps ri) > e")
    case True
    then show ?thesis using assms fits ri bad by (simp add: trace_step_def Let_def)
  next
    case fits2: False
    from assms fits ri fits2 obtain m1 x where g: "ceph_get_snap_realm m (ri_ino ri) = Inr (m1, x)"
      by (auto simp: trace_step_def Let_def split: sum.splits)
    show ?thesis
    proof (cases x)
      case None
      then show ?thesis using assms fits ri fits2 g nomem by (simp add: trace_step_def Let_def)
    next
      case (Some realm)
      from assms fits ri fits2 g Some obtain r1 where r1: "realm_at m1 realm = Some r1"
        by (auto simp: trace_step_def Let_def split: option.splits)
      define m2 where "m2 = (case first of None \<Rightarrow> set_realm m1 realm (r1\<lparr>nref := nref r1 + 1\<rparr>)
                              | Some f \<Rightarrow> m1)"
      from assms fits ri fits2 g Some r1 obtain m3 where q: "trace_queue ev m2 realm ri del = Inr m3"
        by (auto simp: trace_step_def Let_def m2_def split: sum.splits)
      from assms fits ri fits2 g Some r1 q obtain m4 err where
        a: "adjust_snap_realm_parent m3 realm (ri_parent ri) = Inr (m4, err)"
        by (auto simp: trace_step_def Let_def m2_def split: sum.splits)
      note a1 = realms_only_adjust[OF a]
      have "realms_only m3 m'"
      proof (cases "err < 0")
        case True
        then show ?thesis using assms fits ri fits2 g Some r1 q a a1
          by (simp add: trace_step_def Let_def m2_def)
      next
        case False
        from assms fits ri fits2 g Some r1 q a False obtain m5 o5 where
          u: "update_realm_params m4 buf realm ri (p + sizeof_snap_realm)
                (p + sizeof_snap_realm + 8 * uint (ri_num_snaps ri)) (iv + err) = Inr (m5, o5)"
          by (auto simp: trace_step_def Let_def m2_def split: sum.splits)
        note u1 = realms_only_update_params[OF u]
        have "realms_only m5 m'"
        proof (cases o5)
          case (Inl err5)
          then show ?thesis using assms fits ri fits2 g Some r1 q a False u
            by (simp add: trace_step_def Let_def m2_def realms_only_refl)
        next
          case (Inr iv1)
          from assms fits ri fits2 g Some r1 q a False u Inr obtain m6 where
            rb: "(if p + sizeof_snap_realm + 8 * uint (ri_num_snaps ri) +
                     8 * uint (ri_num_prior_parent_snaps ri) = e \<and> iv1 \<noteq> 0
                  then rebuild_snap_realms fuel m5 realm else Some (Inr m5)) = Some (Inr m6)"
            and pt: "ceph_put_snap_realm m6 realm = Inr m'"
            by (auto simp: trace_step_def Let_def m2_def split: option.splits sum.splits)
          have "realms_only m5 m6"
            using rb by (auto split: if_splits intro: realms_only_refl realms_only_rebuild(1))
          then show ?thesis using realms_only_put[OF pt] by (blast intro: realms_only_trans)
        qed
        then show ?thesis using a1 u1 by (blast intro: realms_only_trans)
      qed
      then show ?thesis
        using run[OF _ ri _ g[unfolded Some] r1 m2_def q] fits fits2 by simp
    qed
  qed
qed


lemma kzalloc_set_realm:
  "kzalloc (set_realm m a r) = (fst (kzalloc m), set_realm (snd (kzalloc m)) a r)"
  by (simp add: kzalloc_def set_realm_def split: list.splits)

lemma finish_set_realm:
  "ceph_finish_cap_snap (set_realm m a r) ci k =
     map_sum id (\<lambda>(m', rc). (set_realm m' a r, rc)) (ceph_finish_cap_snap m ci k)"
  by (simp add: ceph_finish_cap_snap_def set_realm_def Let_def split: option.splits)

lemma queue_set_realm:
  "ceph_queue_cap_snap ev (set_realm m a r) ci sc =
     map_sum id (\<lambda>m'. set_realm m' a r) (ceph_queue_cap_snap ev m ci sc)"
proof -
  obtain b m1 where k: "kzalloc m = (b, m1)" by (cases "kzalloc m")
  have im: "inode_mem (set_realm m1 a r) = inode_mem m1" by (simp add: set_realm_def)
  have upd: "\<And>f. set_realm m1 a r\<lparr>inode_mem := f\<rparr> = set_realm (m1\<lparr>inode_mem := f\<rparr>) a r"
    by (simp add: set_realm_def)
  show ?thesis
    unfolding ceph_queue_cap_snap_def kzalloc_set_realm k
    by (cases b)
       (simp_all add: im upd finish_set_realm Let_def split: option.splits sum.splits,
        auto simp: set_realm_def)
qed

lemma queue_all_set_realm:
  "queue_cap_snaps ev (set_realm m a r) cis sc =
     map_sum id (\<lambda>m'. set_realm m' a r) (queue_cap_snaps ev m cis sc)"
  by (induction cis arbitrary: m) (auto simp: queue_set_realm split: sum.splits)

lemma realm_at_queue_all:
  "queue_cap_snaps ev m cis sc = Inr m' \<Longrightarrow> realm_at m' = realm_at m"
  by (rule realm_at_inodes_only[OF inodes_only_queue_all])


lemma kzalloc_rest:
  "kzalloc m = (b, m1) \<Longrightarrow>
   b = alloc_outcome m 0 \<and> alloc_outcome m1 i = alloc_outcome m (Suc i) \<and>
   inode_mem m1 = inode_mem m \<and> snap_flush_list m1 = snap_flush_list m"
  by (auto simp: kzalloc_def alloc_outcome_def split: list.splits)

lemma finish_other:
  "ceph_finish_cap_snap m c k = Inr (m', rc) \<Longrightarrow>
   alloc_ok m' = alloc_ok m \<and> (ci \<noteq> c \<longrightarrow> inode_mem m' ci = inode_mem m ci) \<and>
   (inode_mem m' ci = None \<longleftrightarrow> inode_mem m ci = None) \<and>
   set (snap_flush_list m') \<subseteq> insert c (set (snap_flush_list m))"
  by (auto simp: ceph_finish_cap_snap_def Let_def split: option.splits if_splits)

lemma queue_other:
  assumes "ceph_queue_cap_snap ev m c snapc = Inr m'"
  shows "alloc_outcome m' i = alloc_outcome m (Suc i)"
    and "ci \<noteq> c \<Longrightarrow> inode_mem m' ci = inode_mem m ci"
    and "inode_mem m' ci = None \<longleftrightarrow> inode_mem m ci = None"
    and "set (snap_flush_list m') \<subseteq> insert c (set (snap_flush_list m))"
proof -
  obtain b m1 where k: "kzalloc m = (b, m1)" by (cases "kzalloc m")
  note k1 = kzalloc_rest[OF k]
  have h: "alloc_ok m' = alloc_ok m1 \<and> (ci \<noteq> c \<longrightarrow> inode_mem m' ci = inode_mem m1 ci) \<and>
        (inode_mem m' ci = None \<longleftrightarrow> inode_mem m1 ci = None) \<and>
        set (snap_flush_list m') \<subseteq> insert c (set (snap_flush_list m1))"
    using assms k
    by (auto simp: ceph_queue_cap_snap_def Let_def
        split: option.splits if_splits sum.splits bool.splits
        dest!: finish_other[where ci = ci])
  then have "alloc_outcome m' i = alloc_outcome m1 i" by (simp add: alloc_outcome_def)
  then show "alloc_outcome m' i = alloc_outcome m (Suc i)" using k1[of i] by simp
  show "ci \<noteq> c \<Longrightarrow> inode_mem m' ci = inode_mem m ci"
    and "inode_mem m' ci = None \<longleftrightarrow> inode_mem m ci = None"
    and "set (snap_flush_list m') \<subseteq> insert c (set (snap_flush_list m))"
    using h k1[of i] by simp_all
qed

lemma queue_all_other:
  "queue_cap_snaps ev m cis snapc = Inr m' \<Longrightarrow> ci \<notin> set cis \<Longrightarrow>
   inode_mem m' ci = inode_mem m ci"
proof (induction cis arbitrary: m)
  case Nil
  then show ?case by simp
next
  case (Cons c rest)
  from Cons.prems(1) obtain m1 where
    q: "ceph_queue_cap_snap ev m c snapc = Inr m1" and
    r: "queue_cap_snaps ev m1 rest snapc = Inr m'"
    by (auto split: sum.splits)
  from queue_other(2)[OF q, of ci] Cons.prems(2)
  have "inode_mem m1 ci = inode_mem m ci" by auto
  then show ?case using Cons.IH[OF r] Cons.prems(2) by simp
qed

text \<open>One call: what it does to its inode.\<close>

lemma queue_effect:
  assumes "ceph_queue_cap_snap ev m c snapc = Inr m'" and "inode_mem m c = Some inode"
  shows "if ceph_have_pending_cap_snap inode \<or> \<not> alloc_outcome m 0
         then inode_mem m' c = Some inode
         else (\<exists>sc inode' capsnap.
                 snapc = Some sc \<and> inode_mem m' c = Some inode' \<and>
                 i_cap_snaps inode' = i_cap_snaps inode @ [capsnap] \<and>
                 cs_context capsnap = Some sc \<and> cs_follows capsnap = sc_seq sc - 1)"
proof -
  obtain b m1 where k: "kzalloc m = (b, m1)" by (cases "kzalloc m")
  note k1 = kzalloc_rest[OF k, of 0]
  show ?thesis
  proof (cases "ceph_have_pending_cap_snap inode \<or> \<not> alloc_outcome m 0")
    case True
    then have "inode_mem m' c = Some inode"
      using assms k k1 by (auto simp: ceph_queue_cap_snap_def Let_def split: bool.splits)
    with True show ?thesis by simp
  next
    case False
    then have kt: "kzalloc m = (True, m1)" using k k1 by simp
    from queue_cap_snap_appends[OF assms(1) kt assms(2)] False show ?thesis by auto
  qed
qed

text \<open>The walk: what it does to the inode at position \<open>i\<close> of the list.\<close>

lemma queue_all_nth:
  assumes "queue_cap_snaps ev m cis snapc = Inr m'"
    and "distinct cis" and "i < length cis" and "inode_mem m (cis ! i) = Some inode"
  shows "if ceph_have_pending_cap_snap inode \<or> \<not> alloc_outcome m i
         then inode_mem m' (cis ! i) = Some inode
         else (\<exists>sc inode' capsnap.
                 snapc = Some sc \<and> inode_mem m' (cis ! i) = Some inode' \<and>
                 i_cap_snaps inode' = i_cap_snaps inode @ [capsnap] \<and>
                 cs_context capsnap = Some sc \<and> cs_follows capsnap = sc_seq sc - 1)"
  using assms
proof (induction cis arbitrary: m i)
  case Nil
  then show ?case by simp
next
  case (Cons c rest)
  from Cons.prems(1) obtain m1 where
    q: "ceph_queue_cap_snap ev m c snapc = Inr m1" and
    r: "queue_cap_snaps ev m1 rest snapc = Inr m'"
    by (auto split: sum.splits)
  show ?case
  proof (cases i)
    case 0
    have "inode_mem m' c = inode_mem m1 c"
      using queue_all_other[OF r] Cons.prems(2) by simp
    then show ?thesis using queue_effect[OF q, of inode] Cons.prems(4) 0
      by (auto split: if_splits)
  next
    case (Suc j)
    then have j: "j < length rest" "rest ! j \<noteq> c" "distinct rest"
      using Cons.prems(2,3) by auto
    have "inode_mem m1 (rest ! j) = Some inode"
      using queue_other(2)[OF q j(2)] Cons.prems(4) Suc by simp
    from Cons.IH[OF r j(3) j(1) this] show ?thesis
      using Suc queue_other(1)[OF q, of j] by (auto split: if_splits)
  qed
qed

text \<open>
  The walk returns when the context is not NULL, the list names inodes that exist and
  names none of them twice, and none of them is on the snap flush list.
\<close>

lemma queue_cap_snap_runs:
  assumes "inode_mem m c \<noteq> None" and "c \<notin> set (snap_flush_list m)"
  shows "\<exists>m'. ceph_queue_cap_snap ev m c (Some sc) = Inr m'"
proof -
  from assms(1) obtain inode where i: "inode_mem m c = Some inode" by auto
  obtain b m1 where k: "kzalloc m = (b, m1)" by (cases "kzalloc m")
  note k1 = kzalloc_rest[OF k, of 0]
  show ?thesis
  proof (cases "b \<and> \<not> ceph_have_pending_cap_snap inode")
    case True
    then show ?thesis using queue_cap_snap_returns[of m m1 c inode ev sc] k i assms(2) by simp
  next
    case False
    then show ?thesis using k k1 i
      by (auto simp: ceph_queue_cap_snap_def Let_def split: bool.splits)
  qed
qed

lemma queue_all_runs:
  assumes "distinct cis"
    and "\<forall>ci \<in> set cis. inode_mem m ci \<noteq> None \<and> ci \<notin> set (snap_flush_list m)"
  shows "\<exists>mq. queue_cap_snaps ev m cis (Some sc) = Inr mq"
  using assms
proof (induction cis arbitrary: m)
  case Nil
  then show ?case by simp
next
  case (Cons c rest)
  from queue_cap_snap_runs[of m c ev sc] Cons.prems(2) obtain m1 where
    q: "ceph_queue_cap_snap ev m c (Some sc) = Inr m1" by auto
  have "\<forall>ci \<in> set rest. inode_mem m1 ci \<noteq> None \<and> ci \<notin> set (snap_flush_list m1)"
  proof
    fix ci assume ci: "ci \<in> set rest"
    then have ne: "ci \<noteq> c" using Cons.prems(1) by auto
    have "inode_mem m1 ci \<noteq> None" using queue_other(3)[OF q, of ci] Cons.prems(2) ci by simp
    moreover have "ci \<notin> set (snap_flush_list m1)"
      using queue_other(4)[OF q] Cons.prems(2) ci ne by auto
    ultimately show "inode_mem m1 ci \<noteq> None \<and> ci \<notin> set (snap_flush_list m1)" ..
  qed
  from Cons.IH[OF _ this] Cons.prems(1) obtain mq where
    "queue_cap_snaps ev m1 rest (Some sc) = Inr mq" by auto
  with q show ?case by simp
qed

text \<open>
  A pass that returns has walked the inodes in the state \<open>m1\<close> that the lookup of the
  realm left, and has touched inodes and flush list in that walk only.
\<close>

lemma trace_step_after_queue:
  assumes "trace_step fuel ev m buf p e deletion first iv = Some (Inr (m', out))"
    and "p + sizeof_snap_realm \<le> e"
    and "decode_snap_realm buf p = Some ri"
    and "p + sizeof_snap_realm + 8 * uint (ri_num_snaps ri + ri_num_prior_parent_snaps ri) \<le> e"
    and "ceph_get_snap_realm m (ri_ino ri) = Inr (m1, Some realm)"
    and "realm_at m1 realm = Some r"
    and "seq r < ri_seq ri"
  shows "if deletion
         then inode_mem m' = inode_mem m \<and> snap_flush_list m' = snap_flush_list m
         else (\<exists>mq. queue_cap_snaps ev m1 (inodes_with_caps r) (cached_context r) = Inr mq \<and>
                    inode_mem m' = inode_mem mq \<and>
                    snap_flush_list m' = snap_flush_list mq)"
  using assms(1)
proof (cases rule: trace_step_cases)
  case bad
  then show ?thesis using assms(2,3,4) by auto
next
  case (nomem ri')
  then show ?thesis using assms(3,5) by simp
next
  case (run ri' m1' realm' r1 m2 m3)
  have eqs: "ri' = ri" "m1' = m1" "realm' = realm" "r1 = r"
    using run(2,4,5) assms(3,5,6) by auto
  note g = realms_only_get[OF assms(5)]
  have seq2: "\<exists>r2. realm_at m2 realm = Some r2 \<and> seq r2 = seq r \<and>
                inodes_with_caps r2 = inodes_with_caps r \<and> cached_context r2 = cached_context r"
    using run(6) assms(6) unfolding eqs
    by (auto simp: realm_at_set_realm_present split: option.splits)
  show ?thesis
  proof (cases deletion)
    case True
    then have "m3 = m2" using run(7) seq2 unfolding eqs
      by (auto simp: trace_queue_def split: if_splits)
    moreover have "realms_only m1 m2" using run(6) unfolding eqs
      by (auto simp: realms_only_refl realms_only_set_realm split: option.splits)
    ultimately have "realms_only m m'"
      using g run(8) by (blast intro: realms_only_trans)
    then show ?thesis using True by (simp add: realms_only_def)
  next
    case False
    from run(7) seq2 False assms(7) have q2:
      "queue_cap_snaps ev m2 (inodes_with_caps r) (cached_context r) = Inr m3"
      unfolding eqs by (auto simp: trace_queue_def)
    obtain mq where mq: "queue_cap_snaps ev m1 (inodes_with_caps r) (cached_context r) = Inr mq"
      and m3: "inode_mem m3 = inode_mem mq" "snap_flush_list m3 = snap_flush_list mq"
    proof (cases first)
      case None
      then have "m2 = set_realm m1 realm (r\<lparr>nref := nref r + 1\<rparr>)" using run(6) eqs by simp
      with q2 have "map_sum id (\<lambda>m'. set_realm m' realm (r\<lparr>nref := nref r + 1\<rparr>))
                     (queue_cap_snaps ev m1 (inodes_with_caps r) (cached_context r)) = Inr m3"
        by (simp add: queue_all_set_realm)
      then show ?thesis
        by (cases "queue_cap_snaps ev m1 (inodes_with_caps r) (cached_context r)")
           (auto simp: set_realm_def intro: that)
    next
      case (Some f)
      then have "m2 = m1" using run(6) by (simp add: eqs)
      with q2 show ?thesis by (auto intro: that)
    qed
    have "inode_mem m' = inode_mem mq" "snap_flush_list m' = snap_flush_list mq"
      using run(8) m3 by (simp_all add: realms_only_def)
    then show ?thesis using False mq by auto
  qed
qed

text \<open>
  C3 (as amended). One pass of the trace application over an encoded realm whose seq is
  greater than the stored realm's. For a deletion a pass that returns leaves the inodes
  and the flush list unchanged: no cap-snap is queued. Otherwise, when the realm has a
  cached context and its list \<open>inodes_with_caps\<close> names inodes that exist, each once
  and none of them on the snap flush list, \<^verbatim>\<open>ceph_queue_cap_snap\<close> is called on every
  inode of the list with the cached context as it stood before the update, and the
  walk returns a state \<open>mq\<close> in which the realm is still the realm \<open>r\<close> that was looked
  up: seq, created, parent_since, snaps and prior_parent_snaps are not yet modified. In
  \<open>mq\<close> every inode of the list that had a pending cap-snap, or whose allocation
  failed, is unchanged, and every other one has got one new cap-snap at the end of its
  list, whose context is that old cached context and whose \<open>follows\<close> is the context's
  seq less one. The inodes and the flush list of a pass that returns are those of \<open>mq\<close>.
\<close>

theorem trace_step_queues_cap_snaps:
  assumes "p + sizeof_snap_realm \<le> e"
    and "decode_snap_realm buf p = Some ri"
    and "p + sizeof_snap_realm + 8 * uint (ri_num_snaps ri + ri_num_prior_parent_snaps ri) \<le> e"
    and "ceph_get_snap_realm m (ri_ino ri) = Inr (m1, Some realm)"
    and "realm_at m1 realm = Some r"
    and "seq r < ri_seq ri"
  shows "(deletion \<longrightarrow>
            (\<forall>m' out. trace_step fuel ev m buf p e deletion first iv = Some (Inr (m', out)) \<longrightarrow>
               inode_mem m' = inode_mem m \<and> snap_flush_list m' = snap_flush_list m)) \<and>
         (\<not> deletion \<and> cached_context r = Some sc \<and> distinct (inodes_with_caps r) \<and>
          (\<forall>ci \<in> set (inodes_with_caps r).
             inode_mem m ci \<noteq> None \<and> ci \<notin> set (snap_flush_list m)) \<longrightarrow>
            (\<exists>mq. queue_cap_snaps ev m1 (inodes_with_caps r) (Some sc) = Inr mq \<and>
                  realm_at mq realm = Some r \<and>
                  (\<forall>i inode.
                     i < length (inodes_with_caps r) \<and>
                     inode_mem m (inodes_with_caps r ! i) = Some inode \<longrightarrow>
                     (if ceph_have_pending_cap_snap inode \<or> \<not> alloc_outcome m1 i
                      then inode_mem mq (inodes_with_caps r ! i) = Some inode
                      else (\<exists>inode' capsnap.
                              inode_mem mq (inodes_with_caps r ! i) = Some inode' \<and>
                              i_cap_snaps inode' = i_cap_snaps inode @ [capsnap] \<and>
                              cs_context capsnap = Some sc \<and>
                              cs_follows capsnap = sc_seq sc - 1))) \<and>
                  (\<forall>m' out.
                     trace_step fuel ev m buf p e deletion first iv = Some (Inr (m', out)) \<longrightarrow>
                     inode_mem m' = inode_mem mq \<and>
                     snap_flush_list m' = snap_flush_list mq)))"
proof (intro conjI impI allI)
  fix m' out
  assume "deletion"
    and "trace_step fuel ev m buf p e deletion first iv = Some (Inr (m', out))"
  from trace_step_after_queue[OF this(2) assms] this(1)
  show "inode_mem m' = inode_mem m" and "snap_flush_list m' = snap_flush_list m"
    by simp_all
next
  assume a: "\<not> deletion \<and> cached_context r = Some sc \<and> distinct (inodes_with_caps r) \<and>
          (\<forall>ci \<in> set (inodes_with_caps r).
             inode_mem m ci \<noteq> None \<and> ci \<notin> set (snap_flush_list m))"
  have g: "inode_mem m1 = inode_mem m" "snap_flush_list m1 = snap_flush_list m"
    using realms_only_get[OF assms(4)] by (simp_all add: realms_only_def)
  from a g have "\<forall>ci \<in> set (inodes_with_caps r).
      inode_mem m1 ci \<noteq> None \<and> ci \<notin> set (snap_flush_list m1)"
    by simp
  from queue_all_runs[OF _ this, of ev sc] a obtain mq where
    mq: "queue_cap_snaps ev m1 (inodes_with_caps r) (Some sc) = Inr mq" by auto
  have at: "realm_at mq realm = Some r"
    using realm_at_queue_all[OF mq] assms(5) by simp
  have each: "\<forall>i inode.
      i < length (inodes_with_caps r) \<and>
      inode_mem m (inodes_with_caps r ! i) = Some inode \<longrightarrow>
      (if ceph_have_pending_cap_snap inode \<or> \<not> alloc_outcome m1 i
       then inode_mem mq (inodes_with_caps r ! i) = Some inode
       else (\<exists>inode' capsnap.
               inode_mem mq (inodes_with_caps r ! i) = Some inode' \<and>
               i_cap_snaps inode' = i_cap_snaps inode @ [capsnap] \<and>
               cs_context capsnap = Some sc \<and>
               cs_follows capsnap = sc_seq sc - 1))"
  proof (intro allI impI)
    fix i inode
    assume i: "i < length (inodes_with_caps r) \<and>
      inode_mem m (inodes_with_caps r ! i) = Some inode"
    then have "inode_mem m1 (inodes_with_caps r ! i) = Some inode" using g by simp
    from queue_all_nth[OF mq _ _ this] a i
    show "if ceph_have_pending_cap_snap inode \<or> \<not> alloc_outcome m1 i
       then inode_mem mq (inodes_with_caps r ! i) = Some inode
       else (\<exists>inode' capsnap.
               inode_mem mq (inodes_with_caps r ! i) = Some inode' \<and>
               i_cap_snaps inode' = i_cap_snaps inode @ [capsnap] \<and>
               cs_context capsnap = Some sc \<and>
               cs_follows capsnap = sc_seq sc - 1)"
      by (auto split: if_splits)
  qed
  have final: "\<forall>m' out.
      trace_step fuel ev m buf p e deletion first iv = Some (Inr (m', out)) \<longrightarrow>
      inode_mem m' = inode_mem mq \<and> snap_flush_list m' = snap_flush_list mq"
  proof (intro allI impI)
    fix m' out
    assume "trace_step fuel ev m buf p e deletion first iv = Some (Inr (m', out))"
    from trace_step_after_queue[OF this assms] a mq
    show "inode_mem m' = inode_mem mq \<and> snap_flush_list m' = snap_flush_list mq"
      by auto
  qed
  from mq at each final
  show "\<exists>mq. queue_cap_snaps ev m1 (inodes_with_caps r) (Some sc) = Inr mq \<and>
                  realm_at mq realm = Some r \<and>
                  (\<forall>i inode.
                     i < length (inodes_with_caps r) \<and>
                     inode_mem m (inodes_with_caps r ! i) = Some inode \<longrightarrow>
                     (if ceph_have_pending_cap_snap inode \<or> \<not> alloc_outcome m1 i
                      then inode_mem mq (inodes_with_caps r ! i) = Some inode
                      else (\<exists>inode' capsnap.
                              inode_mem mq (inodes_with_caps r ! i) = Some inode' \<and>
                              i_cap_snaps inode' = i_cap_snaps inode @ [capsnap] \<and>
                              cs_context capsnap = Some sc \<and>
                              cs_follows capsnap = sc_seq sc - 1))) \<and>
                  (\<forall>m' out.
                     trace_step fuel ev m buf p e deletion first iv = Some (Inr (m', out)) \<longrightarrow>
                     inode_mem m' = inode_mem mq \<and>
                     snap_flush_list m' = snap_flush_list mq)"
    by blast
qed

theorem trace_step_queues_cap_snaps_witness:
  "(\<exists>m' out mq.
      trace_step 2 ex_env ex_live ex_trace 0 56 False None 0 = Some (Inr (m', out)) \<and>
      queue_cap_snaps ex_env (set_realm ex_live 0 (ex_live_realm\<lparr>nref := 2\<rparr>)) [0]
        (Some \<lparr>sc_seq = 1, sc_snaps = []\<rparr>) = Inr mq \<and>
      realm_at mq 0 = Some (ex_live_realm\<lparr>nref := 2\<rparr>) \<and>
      inode_mem m' = inode_mem mq \<and> snap_flush_list m' = snap_flush_list mq \<and>
      map_option seq (realm_at m' 0) = Some 2 \<and>
      (\<exists>inode' capsnap.
         inode_mem m' 0 = Some inode' \<and> i_cap_snaps inode' = [capsnap] \<and>
         cs_context capsnap = Some \<lparr>sc_seq = 1, sc_snaps = []\<rparr> \<and> cs_follows capsnap = 0)) \<and>
   (\<exists>m' out.
      trace_step 2 ex_env ex_live ex_trace 0 56 True None 0 = Some (Inr (m', out)) \<and>
      map_option seq (realm_at m' 0) = Some 2 \<and>
      inode_mem m' = inode_mem ex_live \<and> snap_flush_list m' = snap_flush_list ex_live)"
proof -
  have "case trace_step 2 ex_env ex_live ex_trace 0 56 False None 0 of
          Some (Inr (m', out)) \<Rightarrow> map_option seq (realm_at m' 0) = Some 2 | _ \<Rightarrow> False"
    by code_simp
  then obtain m' out where
    run: "trace_step 2 ex_env ex_live ex_trace 0 56 False None 0 = Some (Inr (m', out))"
    and sq: "map_option seq (realm_at m' 0) = Some 2"
    by (auto split: option.splits sum.splits)
  have "case trace_step 2 ex_env ex_live ex_trace 0 56 True None 0 of
          Some (Inr (m', out)) \<Rightarrow> map_option seq (realm_at m' 0) = Some 2 | _ \<Rightarrow> False"
    by code_simp
  then obtain d' dout where
    drun: "trace_step 2 ex_env ex_live ex_trace 0 56 True None 0 = Some (Inr (d', dout))"
    and dsq: "map_option seq (realm_at d' 0) = Some 2"
    by (auto split: option.splits sum.splits)
  have fits: "(0::int) + sizeof_snap_realm \<le> 56" by (simp add: sizeof_snap_realm_def)
  have dec: "decode_snap_realm ex_trace 0 =
      Some \<lparr>ri_ino = 1, ri_seq = 2, ri_created = 3, ri_parent = 0, ri_parent_since = 0,
            ri_num_snaps = 1, ri_num_prior_parent_snaps = 0\<rparr>"
    by code_simp
  have get: "ceph_get_snap_realm ex_live 1 =
      Inr (set_realm ex_live 0 (ex_live_realm\<lparr>nref := 2\<rparr>), Some 0)"
    by (simp add: ceph_get_snap_realm_def realm_at_def ex_live_def ex_live_realm_def
        zero_realm_def)
  have at: "realm_at (set_realm ex_live 0 (ex_live_realm\<lparr>nref := 2\<rparr>)) 0 =
      Some (ex_live_realm\<lparr>nref := 2\<rparr>)"
    by (simp add: realm_at_def set_realm_def ex_live_def)
  have fits2: "0 + sizeof_snap_realm +
      8 * uint (ri_num_snaps \<lparr>ri_ino = 1, ri_seq = 2, ri_created = 3, ri_parent = 0,
                  ri_parent_since = 0, ri_num_snaps = 1, ri_num_prior_parent_snaps = 0\<rparr> +
                ri_num_prior_parent_snaps \<lparr>ri_ino = 1, ri_seq = 2, ri_created = 3,
                  ri_parent = 0, ri_parent_since = 0, ri_num_snaps = 1,
                  ri_num_prior_parent_snaps = 0\<rparr>) \<le> (56::int)"
    by (simp add: sizeof_snap_realm_def)
  have lt: "seq (ex_live_realm\<lparr>nref := 2\<rparr>) <
      ri_seq \<lparr>ri_ino = 1, ri_seq = 2, ri_created = 3, ri_parent = 0, ri_parent_since = 0,
              ri_num_snaps = 1, ri_num_prior_parent_snaps = 0\<rparr>"
    by (simp add: ex_live_realm_def zero_realm_def)
  have get': "ceph_get_snap_realm ex_live
      (ri_ino \<lparr>ri_ino = 1, ri_seq = 2, ri_created = 3, ri_parent = 0, ri_parent_since = 0,
               ri_num_snaps = 1, ri_num_prior_parent_snaps = 0\<rparr>) =
      Inr (set_realm ex_live 0 (ex_live_realm\<lparr>nref := 2\<rparr>), Some 0)"
    using get by simp
  have lst: "inodes_with_caps (ex_live_realm\<lparr>nref := 2\<rparr>) = [0]"
    "cached_context (ex_live_realm\<lparr>nref := 2\<rparr>) = Some \<lparr>sc_seq = 1, sc_snaps = []\<rparr>"
    by (simp_all add: ex_live_realm_def zero_realm_def)
  have pre: "inode_mem ex_live 0 = Some (ex_inode\<lparr>i_snap_realm := Some 0\<rparr>)"
    "snap_flush_list ex_live = []"
    "\<not> ceph_have_pending_cap_snap (ex_inode\<lparr>i_snap_realm := Some 0\<rparr>)"
    "alloc_outcome (set_realm ex_live 0 (ex_live_realm\<lparr>nref := 2\<rparr>)) 0"
    by (simp_all add: set_realm_def ex_live_def ceph_have_pending_cap_snap_def ex_inode_def
        alloc_outcome_def)
  note step = trace_step_queues_cap_snaps[OF fits dec fits2 get' at lt]
  from step[where deletion = True and fuel = 2 and ev = ex_env and first = None and iv = 0]
    drun
  have del: "inode_mem d' = inode_mem ex_live \<and> snap_flush_list d' = snap_flush_list ex_live"
    by simp
  from step[where deletion = False and sc = "\<lparr>sc_seq = 1, sc_snaps = []\<rparr>" and fuel = 2
      and ev = ex_env and first = None and iv = 0] pre(1,2)
  obtain mq where
    mq: "queue_cap_snaps ex_env (set_realm ex_live 0 (ex_live_realm\<lparr>nref := 2\<rparr>)) [0]
           (Some \<lparr>sc_seq = 1, sc_snaps = []\<rparr>) = Inr mq"
      "realm_at mq 0 = Some (ex_live_realm\<lparr>nref := 2\<rparr>)"
    and per: "\<forall>i inode.
       i < length [0::nat] \<and> inode_mem ex_live ([0] ! i) = Some inode \<longrightarrow>
       (if ceph_have_pending_cap_snap inode \<or>
           \<not> alloc_outcome (set_realm ex_live 0 (ex_live_realm\<lparr>nref := 2\<rparr>)) i
        then inode_mem mq ([0] ! i) = Some inode
        else (\<exists>inode' capsnap.
                inode_mem mq ([0] ! i) = Some inode' \<and>
                i_cap_snaps inode' = i_cap_snaps inode @ [capsnap] \<and>
                cs_context capsnap = Some \<lparr>sc_seq = 1, sc_snaps = []\<rparr> \<and>
                cs_follows capsnap = sc_seq \<lparr>sc_seq = 1, sc_snaps = []\<rparr> - 1))"
    and fin: "\<forall>m' out.
       trace_step 2 ex_env ex_live ex_trace 0 56 False None 0 = Some (Inr (m', out)) \<longrightarrow>
       inode_mem m' = inode_mem mq \<and> snap_flush_list m' = snap_flush_list mq"
    unfolding lst by auto
  from fin run have im: "inode_mem m' = inode_mem mq" "snap_flush_list m' = snap_flush_list mq"
    by auto
  from per[rule_format, of 0 "ex_inode\<lparr>i_snap_realm := Some 0\<rparr>"] pre
  obtain inode' capsnap where
    "inode_mem mq 0 = Some inode'"
    "i_cap_snaps inode' = i_cap_snaps (ex_inode\<lparr>i_snap_realm := Some 0\<rparr>) @ [capsnap]"
    "cs_context capsnap = Some \<lparr>sc_seq = 1, sc_snaps = []\<rparr>" "cs_follows capsnap = 1 - 1"
    by auto
  then have "\<exists>inode' capsnap.
        inode_mem m' 0 = Some inode' \<and> i_cap_snaps inode' = [capsnap] \<and>
        cs_context capsnap = Some \<lparr>sc_seq = 1, sc_snaps = []\<rparr> \<and> cs_follows capsnap = 0"
    using im(1) by (simp add: ex_inode_def)
  with run sq mq im drun dsq del show ?thesis by blast
qed

text \<open>
  The claim as the spec words it fails when the allocation of a cap-snap fails. The
  realm of inode 1 is at seq 1 with a cached context and one inode, which has no
  cap-snap; the trace takes the realm to seq 2 and is no deletion. The first
  allocation fails, \<^verbatim>\<open>ceph_queue_cap_snap\<close> returns at once, and the trace is applied
  all the same: the realm is at seq 2 and the inode still has no cap-snap.
\<close>

theorem update_snap_trace_no_memory_counterexample:
  "map_option ino (realm_at ex_live_nomem 0) = Some 1 \<and>
   map_option seq (realm_at ex_live_nomem 0) = Some 1 \<and>
   map_option inodes_with_caps (realm_at ex_live_nomem 0) = Some [0] \<and>
   map_option cached_context (realm_at ex_live_nomem 0) =
     Some (Some \<lparr>sc_seq = 1, sc_snaps = []\<rparr>) \<and>
   map_option i_cap_snaps (inode_mem ex_live_nomem 0) = Some [] \<and>
   map_option ri_ino (decode_snap_realm ex_trace 0) = Some 1 \<and>
   map_option ri_seq (decode_snap_realm ex_trace 0) = Some 2 \<and>
   (case ceph_update_snap_trace 3 ex_env ex_live_nomem ex_trace 0 56 False of
      Some (Inr (m', Inr first)) \<Rightarrow>
        map_option seq (realm_at m' 0) = Some 2 \<and>
        map_option i_cap_snaps (inode_mem m' 0) = Some []
    | _ \<Rightarrow> False)"
  by code_simp

subsection \<open>Sessions are left alone by traces and splits\<close>

lemma sessions_set_realm: "sessions (set_realm m a r) = sessions m"
  by (simp add: set_realm_def)

lemma sessions_queue:
  "ceph_queue_cap_snap ev m ci sc = Inr m' \<Longrightarrow> sessions m' = sessions m"
  by (rule sessions_inodes_only[OF inodes_only_queue])

lemma sessions_trace_queue:
  "trace_queue ev m realm ri del = Inr m' \<Longrightarrow> sessions m' = sessions m"
  by (auto simp: trace_queue_def split: option.splits if_splits
      dest: inodes_only_queue_all sessions_inodes_only)

lemma sessions_trace_step:
  assumes "trace_step fuel ev m buf p e del first iv = Some (Inr (m', out))"
  shows "sessions m' = sessions m"
  using assms
proof (cases rule: trace_step_cases)
  case bad
  then show ?thesis by simp
next
  case (nomem ri)
  then show ?thesis by (auto dest: realms_only_get sessions_realms_only)
next
  case (run ri m1 realm r1 m2 m3)
  have "sessions m1 = sessions m" using run(4) by (auto dest: realms_only_get sessions_realms_only)
  moreover have "sessions m2 = sessions m1"
    using run(6) by (auto simp: sessions_set_realm split: option.splits)
  moreover have "sessions m3 = sessions m2" using run(7) by (rule sessions_trace_queue)
  moreover have "sessions m' = sessions m3" using run(8) by (rule sessions_realms_only)
  ultimately show ?thesis by simp
qed

lemma sessions_update_more:
  "update_snap_trace_more fuel ev m buf p e del first iv = Some (Inr (m', out)) \<Longrightarrow>
   sessions m' = sessions m"
proof (induction fuel arbitrary: m p first iv)
  case 0
  then show ?case by simp
next
  case (Suc fuel)
  from Suc.prems obtain m1 o1 where
    st: "trace_step fuel ev m buf p e del first iv = Some (Inr (m1, o1))"
    by (auto split: option.splits sum.splits prod.splits)
  note s1 = sessions_trace_step[OF st]
  show ?case
  proof (cases o1)
    case (Inl err)
    then show ?thesis using Suc.prems st s1 by simp
  next
    case (Inr t)
    obtain p2 first1 iv1 where t: "t = (p2, first1, iv1)" by (cases t)
    show ?thesis
    proof (cases "p2 < e")
      case True
      then have "update_snap_trace_more fuel ev m1 buf p2 e del (Some first1) iv1 = Some (Inr (m', out))"
        using Suc.prems st Inr t by simp
      from Suc.IH[OF this] s1 show ?thesis by simp
    next
      case False
      then show ?thesis using Suc.prems st Inr t s1 by simp
    qed
  qed
qed

lemma sessions_split_move_inodes:
  "split_move_inodes ev m buf si rp is = Inr m' \<Longrightarrow> sessions m' = sessions m"
proof (induction "is" arbitrary: m)
  case Nil
  then show ?case by simp
next
  case (Cons i rest)
  show ?case
    using Cons.prems
    by (auto simp: del_snap_realm_item_def sessions_set_realm
        split: option.splits if_splits sum.splits
        dest!: Cons.IH sessions_queue)
qed

lemma sessions_split_move_realms:
  "split_move_realms m buf sr realm is = Inr m' \<Longrightarrow> sessions m' = sessions m"
proof (induction "is" arbitrary: m)
  case Nil
  then show ?case by simp
next
  case (Cons i rest)
  show ?case
    using Cons.prems
    by (auto split: option.splits sum.splits prod.splits
        dest!: Cons.IH realms_only_get realms_only_adjust realms_only_put sessions_realms_only)
qed

lemma sessions_handle_split:
  "handle_split ev m buf p e h = Inr (m', out) \<Longrightarrow> sessions m' = sessions m"
  by (auto simp: handle_split_def Let_def split: if_splits sum.splits prod.splits option.splits
      dest!: realms_only_get sessions_realms_only sessions_split_move_inodes
             sessions_split_move_realms)

subsection \<open>Messages that are dropped\<close>

text \<open>
  C10. For a message whose source entity type is not MDS, \<^verbatim>\<open>ceph_handle_snap\<close> returns
  at once, whatever the fuel, and the state (realm forest, inodes with their cap-snap
  lists, flush list, sessions) is the one it was given.
\<close>

theorem handle_snap_not_from_mds:
  assumes "hdr_src_type msg \<noteq> ENTITY_TYPE_MDS ev"
  shows "ceph_handle_snap fuel ev mdsc msg = Some (Inr mdsc)"
  using assms by (simp add: ceph_handle_snap_def Let_def)

lemma trace_step_undecodable:
  "first_realm_undecodable buf p e \<Longrightarrow>
   trace_step fuel ev m buf p e del first iv = Some (Inr (m, Inl (- EINVAL)))"
  by (auto simp: first_realm_undecodable_def trace_step_def Let_def split: option.splits)

lemma update_trace_undecodable:
  "first_realm_undecodable buf p e \<Longrightarrow>
   ceph_update_snap_trace (Suc fuel) ev m buf p e del = Some (Inr (m, Inl (- EINVAL)))"
  by (simp add: ceph_update_snap_trace_def trace_step_undecodable)

lemma handle_split_undecodable:
  "split_head_undecodable h p e \<Longrightarrow> handle_split ev m buf p e h = Inr (m, Inl ())"
  by (simp add: split_head_undecodable_def handle_split_def Let_def)

lemma handle_snap_nothing_applied:
  assumes "hdr_src_type msg = ENTITY_TYPE_MDS ev"
    and "snap_msg_undecodable ev msg"
  shows "ceph_handle_snap (Suc fuel) ev mdsc msg =
           Some (Inr (if int (length (front msg)) < sizeof_snap_head then mdsc
                      else bump_session mdsc (hdr_src_num msg)))"
proof (cases "int (length (front msg)) < sizeof_snap_head")
  case True
  then show ?thesis using assms(1) by (simp add: ceph_handle_snap_def Let_def)
next
  case False
  from assms(2) False obtain h where h: "decode_snap_head (front msg) 0 = Some h"
    and u: "if h_op h = SNAP_OP_SPLIT ev
            then split_head_undecodable h sizeof_snap_head (int (length (front msg)))
            else first_realm_undecodable (front msg) sizeof_snap_head (int (length (front msg)))"
    by (auto simp: snap_msg_undecodable_def split: option.splits)
  show ?thesis
  proof (cases "sessions mdsc (hdr_src_num msg)")
    case None
    then show ?thesis using assms(1) False h
      by (simp add: ceph_handle_snap_def Let_def bump_session_def)
  next
    case (Some session)
    show ?thesis
    proof (cases "h_op h = SNAP_OP_SPLIT ev")
      case True
      then show ?thesis using assms(1) False h Some u
        by (simp add: ceph_handle_snap_def Let_def bump_session_def handle_split_undecodable)
    next
      case op: False
      then show ?thesis using assms(1) False h Some u
        by (simp add: ceph_handle_snap_def Let_def bump_session_def update_trace_undecodable)
    qed
  qed
qed

theorem handle_snap_not_from_mds_witness:
  "hdr_src_type ex_msg_client \<noteq> ENTITY_TYPE_MDS ex_env \<and>
   ceph_handle_snap 0 ex_env ex_live ex_msg_client = Some (Inr ex_live)"
  using handle_snap_not_from_mds[of ex_msg_client ex_env 0 ex_live]
  by (simp add: ex_msg_client_def ex_env_def)

text \<open>
  C9 (as amended). For a snap message from an MDS: when it fails to decode before
  anything of it is applied (the snap head, the split head, or the first encoded realm
  of a message that is no split does not fit), \<^verbatim>\<open>ceph_handle_snap\<close> returns without a
  fault; realms, inodes, cap-snaps and the flush list are unchanged, and the session is
  kept: with a front shorter than the head nothing changes at all, otherwise only
  \<^verbatim>\<open>s_seq\<close> of the sender's session has been incremented. And whenever the trace
  application ends in an error (a later encoded realm that does not decode, or a failed
  allocation), \<^verbatim>\<open>ceph_handle_snap\<close> returns with the state the trace application left,
  without a fault: the reattachment of a split, the final puts and the flush are
  skipped, realms applied before the failure stay applied, and the sessions are as
  after the \<^verbatim>\<open>s_seq++\<close>.
\<close>

theorem handle_snap_decode_failure:
  assumes "hdr_src_type msg = ENTITY_TYPE_MDS ev"
  shows "(snap_msg_undecodable ev msg \<longrightarrow>
            ceph_handle_snap (Suc fuel) ev mdsc msg =
              Some (Inr (if int (length (front msg)) < sizeof_snap_head then mdsc
                         else bump_session mdsc (hdr_src_num msg)))) \<and>
         (\<not> int (length (front msg)) < sizeof_snap_head \<and>
          decode_snap_head (front msg) 0 = Some h \<and>
          sessions mdsc (hdr_src_num msg) = Some session \<and>
          (if h_op h = SNAP_OP_SPLIT ev
           then handle_split ev (bump_session mdsc (hdr_src_num msg)) (front msg)
                  sizeof_snap_head (int (length (front msg))) h
           else Inr (bump_session mdsc (hdr_src_num msg), Inr sizeof_snap_head)) =
            Inr (mdsc2, Inr p) \<and>
          ceph_update_snap_trace fuel' ev mdsc2 (front msg) p (int (length (front msg)))
            (h_op h = SNAP_OP_DESTROY ev) = Some (Inr (mdsc3, Inl err)) \<longrightarrow>
            ceph_handle_snap fuel' ev mdsc msg = Some (Inr mdsc3) \<and>
            sessions mdsc3 = sessions (bump_session mdsc (hdr_src_num msg)))"
proof (intro conjI impI)
  assume "snap_msg_undecodable ev msg"
  then show "ceph_handle_snap (Suc fuel) ev mdsc msg =
              Some (Inr (if int (length (front msg)) < sizeof_snap_head then mdsc
                         else bump_session mdsc (hdr_src_num msg)))"
    using handle_snap_nothing_applied[OF assms] by simp
next
  let ?m1 = "bump_session mdsc (hdr_src_num msg)"
  assume a: "\<not> int (length (front msg)) < sizeof_snap_head \<and>
          decode_snap_head (front msg) 0 = Some h \<and>
          sessions mdsc (hdr_src_num msg) = Some session \<and>
          (if h_op h = SNAP_OP_SPLIT ev
           then handle_split ev ?m1 (front msg)
                  sizeof_snap_head (int (length (front msg))) h
           else Inr (?m1, Inr sizeof_snap_head)) =
            Inr (mdsc2, Inr p) \<and>
          ceph_update_snap_trace fuel' ev mdsc2 (front msg) p (int (length (front msg)))
            (h_op h = SNAP_OP_DESTROY ev) = Some (Inr (mdsc3, Inl err))"
  then have m1: "?m1 = mdsc\<lparr>sessions := (sessions mdsc)
                    (hdr_src_num msg \<mapsto> session\<lparr>s_seq := s_seq session + 1\<rparr>)\<rparr>"
    by (simp add: bump_session_def)
  show "ceph_handle_snap fuel' ev mdsc msg = Some (Inr mdsc3)"
    using a assms unfolding m1 by (simp add: ceph_handle_snap_def Let_def)
  have "sessions mdsc2 = sessions ?m1"
    using a by (auto split: if_splits dest: sessions_handle_split)
  moreover have "sessions mdsc3 = sessions mdsc2"
    using a by (auto simp: ceph_update_snap_trace_def dest: sessions_update_more)
  ultimately show "sessions mdsc3 = sessions ?m1" by simp
qed

theorem handle_snap_decode_failure_witness:
  "snap_msg_undecodable ex_env ex_msg_short \<and>
   ceph_handle_snap (Suc 0) ex_env ex_live ex_msg_short = Some (Inr (bump_session ex_live 0)) \<and>
   sessions (bump_session ex_live 0) 0 = Some \<lparr>s_seq = 8\<rparr> \<and>
   realm_mem (bump_session ex_live 0) = realm_mem ex_live \<and>
   inode_mem (bump_session ex_live 0) = inode_mem ex_live \<and>
   (\<exists>m3. ceph_handle_snap 3 ex_env ex_live ex_msg_stray = Some (Inr m3) \<and>
         sessions m3 = sessions (bump_session ex_live 0))"
proof -
  have u: "snap_msg_undecodable ex_env ex_msg_short" by code_simp
  have t: "hdr_src_type ex_msg_short = ENTITY_TYPE_MDS ex_env"
    by (simp add: ex_msg_short_def ex_env_def)
  have l: "\<not> int (length (front ex_msg_short)) < sizeof_snap_head" by code_simp
  have first: "ceph_handle_snap (Suc 0) ex_env ex_live ex_msg_short =
      Some (Inr (bump_session ex_live 0))"
    using handle_snap_decode_failure[OF t, of 0 ex_live] u l
    by (simp add: ex_msg_short_def)
  have t2: "hdr_src_type ex_msg_stray = ENTITY_TYPE_MDS ex_env"
    by (simp add: ex_msg_stray_def ex_env_def)
  have l2: "\<not> int (length (front ex_msg_stray)) < sizeof_snap_head" by code_simp
  have h2: "decode_snap_head (front ex_msg_stray) 0 =
      Some \<lparr>h_op = 0, h_split = 0, h_num_split_inos = 0, h_num_split_realms = 0,
            h_trace_len = 57\<rparr>"
    by code_simp
  have s2: "sessions ex_live (hdr_src_num ex_msg_stray) = Some \<lparr>s_seq = 7\<rparr>"
    by (simp add: ex_live_def ex_msg_stray_def)
  have "case ceph_update_snap_trace 3 ex_env (bump_session ex_live 0) (front ex_msg_stray)
               sizeof_snap_head (int (length (front ex_msg_stray))) False of
          Some (Inr (m3, Inl err)) \<Rightarrow> True | _ \<Rightarrow> False"
    by code_simp
  then obtain m3 b where tr0:
    "ceph_update_snap_trace 3 ex_env (bump_session ex_live 0) (front ex_msg_stray)
       sizeof_snap_head (int (length (front ex_msg_stray))) False = Some (Inr (m3, b))"
    and nb: "\<forall>x. b \<noteq> Inr x"
    by (auto split: option.splits sum.splits)
  then obtain err where "b = Inl err" by (cases b) auto
  with tr0 have tr:
    "ceph_update_snap_trace 3 ex_env (bump_session ex_live 0) (front ex_msg_stray)
       sizeof_snap_head (int (length (front ex_msg_stray))) False = Some (Inr (m3, Inl err))"
    by simp
  have n: "hdr_src_num ex_msg_stray = 0" by (simp add: ex_msg_stray_def)
  have "ceph_handle_snap 3 ex_env ex_live ex_msg_stray = Some (Inr m3) \<and>
        sessions m3 = sessions (bump_session ex_live 0)"
    using handle_snap_decode_failure[OF t2, of 0 ex_live
            "\<lparr>h_op = 0, h_split = 0, h_num_split_inos = 0, h_num_split_realms = 0,
              h_trace_len = 57\<rparr>" "\<lparr>s_seq = 7\<rparr>" "bump_session ex_live 0" sizeof_snap_head
            3 m3 err] l2 h2 s2 tr
    by (simp add: n ex_env_def)
  with first u show ?thesis
    by (auto simp: bump_session_def ex_live_def)
qed

text \<open>
  The claim as the spec words it ("drop the whole message ... without applying the
  update") fails: a trace is applied realm by realm and nothing is undone. In a message
  whose trace is one good realm and a stray byte, the second pass fails to decode at
  offset 80, and the call returns with the first realm updated to seq 2 and a cap-snap
  queued on its inode.
\<close>

theorem handle_snap_partial_counterexample:
  "first_realm_undecodable (front ex_msg_stray) 80 81 \<and>
   map_option seq (realm_at ex_live 0) = Some 1 \<and>
   map_option i_cap_snaps (inode_mem ex_live 0) = Some [] \<and>
   (case returned (ceph_handle_snap 3 ex_env ex_live ex_msg_stray) of
      None \<Rightarrow> False
    | Some m \<Rightarrow>
        map_option seq (realm_at m 0) = Some 2 \<and>
        map_option snaps (realm_at m 0) = Some [2] \<and>
        map_option (map cs_follows) (map_option i_cap_snaps (inode_mem m 0)) = Some [0])"
  by code_simp

subsection \<open>Splits\<close>

text \<open>
  C4 does not hold of the code. The inode 100 is in a realm created at 3; the split
  names it for a new realm created at 2. The first loop skips the inode, as the claim
  and the code's own comment ("leaving ... in newer realm") say; the second loop then
  attaches every listed inode it finds, this one too: afterwards the inode points to
  the new realm and is on the new realm's list, while the old realm's list still holds
  it.
\<close>

theorem handle_snap_split_moves_newer_inode:
  "inode_realm ex_live 0 = Some 0 \<and>
   map_option created (realm_at ex_live 0) = Some 3 \<and>
   ri_created_at (front ex_msg_split) 32 = Some 2 \<and>
   (case returned (ceph_handle_snap 6 ex_env ex_live ex_msg_split) of
      None \<Rightarrow> False
    | Some m \<Rightarrow>
        inode_realm m 0 = Some 1 \<and>
        map_option ino (realm_at m 1) = Some 5 \<and>
        map_option inodes_with_caps (realm_at m 1) = Some [0] \<and>
        map_option inodes_with_caps (realm_at m 0) = Some [0])"
  by code_simp

subsection \<open>Dropping the last reference of a realm\<close>

lemma put_cases:
  assumes "ceph_put_snap_realm mdsc realm = Inr mdsc'"
  obtains (keep) r where "realm_at mdsc realm = Some r" "nref r - 1 \<noteq> 0"
      "mdsc' = set_realm mdsc realm (r\<lparr>nref := nref r - 1\<rparr>)"
  | (root) r where "realm_at mdsc realm = Some r" "nref r - 1 = 0" "parent r = None"
      "mdsc' = set_realm mdsc realm (r\<lparr>nref := nref r - 1\<rparr>)
                 \<lparr>snap_realms := (snap_realms mdsc)(ino r := None),
                  realm_mem := (realm_mem mdsc)(realm := None)\<rparr>"
  | (child) r p m2 m3 r3 where "realm_at mdsc realm = Some r" "nref r - 1 = 0"
      "parent r = Some p"
      "del_child_item (set_realm mdsc realm (r\<lparr>nref := nref r - 1\<rparr>)) realm p = Inr m2"
      "ceph_put_snap_realm m2 p = Inr m3"
      "realm_at m3 realm = Some r3"
      "mdsc' = m3\<lparr>snap_realms := (snap_realms m3)(ino r3 := None),
                  realm_mem := (realm_mem m3)(realm := None)\<rparr>"
proof -
  from assms obtain r where r: "realm_at mdsc realm = Some r"
    by (subst (asm) ceph_put_snap_realm.simps) (auto split: option.splits)
  let ?m1 = "set_realm mdsc realm (r\<lparr>nref := nref r - 1\<rparr>)"
  show ?thesis
  proof (cases "nref r - 1 = 0")
    case False
    then have "mdsc' = ?m1" using assms r
      by (subst (asm) ceph_put_snap_realm.simps) (simp add: Let_def)
    then show ?thesis using keep r False by blast
  next
    case True
    show ?thesis
    proof (cases "parent r")
      case None
      have "realm_at ?m1 realm = Some (r\<lparr>nref := nref r - 1\<rparr>)"
        using r by (simp add: realm_at_set_realm_present)
      then have "mdsc' = ?m1\<lparr>snap_realms := (snap_realms mdsc)(ino r := None),
                  realm_mem := (realm_mem mdsc)(realm := None)\<rparr>"
        using assms r True None
        by (subst (asm) ceph_put_snap_realm.simps) (auto simp: Let_def set_realm_def)
      then show ?thesis using root r True None by blast
    next
      case (Some p)
      from assms r True Some obtain m2 m3 r3 where
        "del_child_item ?m1 realm p = Inr m2" "ceph_put_snap_realm m2 p = Inr m3"
        "realm_at m3 realm = Some r3"
        "mdsc' = m3\<lparr>snap_realms := (snap_realms m3)(ino r3 := None),
                  realm_mem := (realm_mem m3)(realm := None)\<rparr>"
        by (subst (asm) ceph_put_snap_realm.simps)
           (auto simp: Let_def split: option.splits sum.splits)
      then show ?thesis using child r True Some by blast
    qed
  qed
qed

lemma del_child_item_at:
  "del_child_item m realm p = Inr m' \<Longrightarrow>
   realm_at m' x = (if x = p then map_option (\<lambda>pr. pr\<lparr>children := removeAll realm (children pr)\<rparr>)
                                    (realm_at m p)
                    else realm_at m x)"
  by (auto simp: del_child_item_def realm_at_set_realm_present split: option.splits)

lemma put_keeps_ino:
  "ceph_put_snap_realm m a = Inr m' \<Longrightarrow> realm_at m' x = Some rx' \<Longrightarrow>
   \<exists>rx. realm_at m x = Some rx \<and> ino rx' = ino rx"
proof (induction m a arbitrary: m' rx' rule: ceph_put_snap_realm.induct)
  case (1 mdsc realm)
  from "1.prems"(1) show ?case
  proof (cases rule: put_cases)
    case (keep r)
    then show ?thesis using "1.prems"(2)
      by (auto simp: realm_at_set_realm_present split: if_splits)
  next
    case (root r)
    then show ?thesis using "1.prems"(2)
      by (auto simp: realm_at_def set_realm_def split: if_splits)
  next
    case (child r p m2 m3 r3)
    have "realm_at m3 x = Some rx'"
      using child(7) "1.prems"(2) by (auto simp: realm_at_def split: if_splits)
    from "1.IH"[OF child(1) refl child(2,3,4,5) this]
    obtain r2 where r2: "realm_at m2 x = Some r2" "ino rx' = ino r2" by blast
    then show ?thesis
      using del_child_item_at[OF child(4), of x] child(1)
      by (auto simp: realm_at_set_realm_present split: if_splits)
  qed
qed


lemma put_last_ref_gone:
  assumes "ceph_put_snap_realm mdsc realm = Inr mdsc'"
    and "realm_at mdsc realm = Some r"
    and "nref r - 1 = 0"
  shows "snap_realms mdsc' (ino r) = None \<and> realm_at mdsc' realm = None"
  using assms(1)
proof (cases rule: put_cases)
  case (keep r')
  then show ?thesis using assms(2,3) by simp
next
  case (root r')
  then show ?thesis using assms(2) by (simp add: realm_at_def set_realm_def)
next
  case (child r' p m2 m3 r3)
  have r': "r' = r" using child(1) assms(2) by simp
  from put_keeps_ino[OF child(5,6)] obtain r2 where
    r2: "realm_at m2 realm = Some r2" "ino r3 = ino r2" by blast
  have "ino r2 = ino r"
    using r2(1) del_child_item_at[OF child(4), of realm] assms(2) unfolding r'
    by (auto simp: realm_at_set_realm_present split: if_splits)
  then show ?thesis using child(7) r2(2) by (simp add: realm_at_def)
qed

text \<open>
  C7. When a put (that returns without a fault) drops a realm's count to zero, the
  realm is gone from the radix tree and freed, and its parent, if it is another realm,
  has lost the realm from its child list and one reference: its count is one less, or,
  when that was the parent's last reference, the parent is gone in turn. A realm whose
  count is not zero after the put stays, only the count changes: in particular the
  radix tree is the same.
\<close>

theorem put_snap_realm_last_ref:
  assumes "ceph_put_snap_realm mdsc realm = Inr mdsc'"
    and "realm_at mdsc realm = Some r"
  shows "if nref r - 1 = 0
         then snap_realms mdsc' (ino r) = None \<and> realm_at mdsc' realm = None \<and>
              (case parent r of
                 None \<Rightarrow> True
               | Some p \<Rightarrow>
                   (case realm_at mdsc p of
                      None \<Rightarrow> False
                    | Some pr \<Rightarrow>
                        p = realm \<or>
                        realm_at mdsc' p =
                          (if nref pr - 1 = 0 then None
                           else Some (pr\<lparr>children := removeAll realm (children pr),
                                         nref := nref pr - 1\<rparr>))))
         else mdsc' = set_realm mdsc realm (r\<lparr>nref := nref r - 1\<rparr>)"
  using assms(1)
proof (cases rule: put_cases)
  case (keep r')
  then show ?thesis using assms(2) by simp
next
  case (root r')
  then show ?thesis using assms put_last_ref_gone[OF assms] by simp
next
  case (child r' p m2 m3 r3)
  have r': "r' = r" using child(1) assms(2) by simp
  note gone = put_last_ref_gone[OF assms child(2)[unfolded r']]
  let ?m1 = "set_realm mdsc realm (r\<lparr>nref := nref r - 1\<rparr>)"
  from child(4) obtain pr1 where pr1: "realm_at ?m1 p = Some pr1"
    unfolding r' by (auto simp: del_child_item_def split: option.splits)
  then obtain pr where pr: "realm_at mdsc p = Some pr"
    using assms(2) by (auto simp: realm_at_set_realm_present split: if_splits)
  have "p = realm \<or>
        realm_at mdsc' p =
          (if nref pr - 1 = 0 then None
           else Some (pr\<lparr>children := removeAll realm (children pr), nref := nref pr - 1\<rparr>))"
  proof (cases "p = realm")
    case True
    then show ?thesis by simp
  next
    case False
    have p2: "realm_at m2 p = Some (pr\<lparr>children := removeAll realm (children pr)\<rparr>)"
      using del_child_item_at[OF child(4), of p] pr False assms(2) unfolding r'
      by (simp add: realm_at_set_realm_present)
    have "realm_at m3 p =
          (if nref pr - 1 = 0 then None
           else Some (pr\<lparr>children := removeAll realm (children pr), nref := nref pr - 1\<rparr>))"
    proof (cases "nref pr - 1 = 0")
      case True
      then show ?thesis using put_last_ref_gone[OF child(5) p2] by simp
    next
      case nz: False
      from child(5) have "m3 = set_realm m2 p
          (pr\<lparr>children := removeAll realm (children pr), nref := nref pr - 1\<rparr>)"
        using p2 nz by (cases rule: put_cases) auto
      then show ?thesis using nz p2 by (simp add: realm_at_set_realm_present)
    qed
    moreover have "realm_at mdsc' p = realm_at m3 p"
      using child(7) False by (simp add: realm_at_def)
    ultimately show ?thesis by simp
  qed
  then show ?thesis
    using gone child(2,3) pr unfolding r' by simp
qed


theorem put_snap_realm_last_ref_witness:
  "\<exists>m'. ceph_put_snap_realm ex_forest 1 = Inr m' \<and>
        nref ex_child - 1 = 0 \<and>
        snap_realms m' (ino ex_child) = None \<and> realm_at m' 1 = None \<and>
        realm_at m' 0 = Some (ex_root\<lparr>children := [], nref := 1\<rparr>)"
proof -
  have "case ceph_put_snap_realm ex_forest 1 of Inr m' \<Rightarrow> True | Inl f \<Rightarrow> False"
    by code_simp
  then obtain m' where run: "ceph_put_snap_realm ex_forest 1 = Inr m'"
    by (auto split: sum.splits)
  have at: "realm_at ex_forest 1 = Some ex_child"
    by (simp add: realm_at_def ex_forest_def ex_mdsc_def)
  have at0: "realm_at ex_forest 0 = Some ex_root"
    by (simp add: realm_at_def ex_forest_def ex_mdsc_def)
  have one: "nref ex_child - 1 = 0" "parent ex_child = Some 0" "nref ex_root - 1 \<noteq> 0"
    "removeAll (Suc 0) (children ex_root) = []" "nref ex_root - 1 = 1"
    by (simp_all add: ex_child_def ex_root_def zero_realm_def)
  from put_snap_realm_last_ref[OF run at] run show ?thesis
    by (simp add: one at0)
qed

subsection \<open>A failed allocation while a context is built\<close>

lemma kzalloc_index: "kzalloc m = (b, m1) \<Longrightarrow> snap_realms m1 = snap_realms m"
  by (auto simp: kzalloc_def split: list.splits)

lemma build_fail_index:
  "build_fail m realm err = Inr (m', rc) \<Longrightarrow> snap_realms m' = snap_realms m"
  by (auto simp: build_fail_def set_realm_def split: option.splits)

lemma build_own_index:
  "build_own m realm = Inr (m', rc) \<Longrightarrow> snap_realms m' = snap_realms m"
  by (auto simp: build_own_def set_realm_def
      split: option.splits sum.splits if_splits prod.splits bool.splits
      dest!: kzalloc_index build_fail_index)

lemma build_index:
  "build_snap_context n m realm = Some (Inr (m', rc)) \<Longrightarrow> snap_realms m' = snap_realms m"
proof (induction n arbitrary: realm m' rc)
  case 0
  then show ?case by simp
next
  case (Suc n)
  from Suc.prems show ?case
  proof (cases rule: build_Suc_cases)
    case direct
    then show ?thesis by (rule build_own_index)
  next
    case (climb r p pr m1 e)
    have "snap_realms m1 = snap_realms m" using Suc.IH[OF climb(5)] .
    moreover have "snap_realms m' = snap_realms m1"
      using climb(6) by (auto split: if_splits dest: build_fail_index build_own_index)
    ultimately show ?thesis by simp
  qed
qed

lemma build_fail_at:
  "build_fail m realm err = Inr (m', rc) \<Longrightarrow> realm_at m realm = Some r \<Longrightarrow>
   rc = err \<and> realm_at m' realm = Some (r\<lparr>cached_context := None\<rparr>)"
  by (auto simp: build_fail_def realm_at_set_realm_present)

lemma build_own_err:
  assumes "build_own m realm = Inr (m', rc)" and "rc \<noteq> 0" and "realm_at m realm = Some r"
  shows "rc = - ENOMEM \<and> realm_at m' realm = Some (r\<lparr>cached_context := None\<rparr>)"
proof -
  from assms obtain pctx where pctx: "parent_context m r = Inr pctx"
    by (auto simp: build_own_def split: sum.splits)
  have nu: "\<not> context_unchanged r pctx"
    using assms pctx by (auto simp: build_own_def)
  obtain b m1 where k: "kzalloc m = (b, m1)" by (cases "kzalloc m")
  have "\<not> b" using assms pctx nu k
    by (auto simp: build_own_def split: sum.splits)
  then have "build_fail m1 realm (- ENOMEM) = Inr (m', rc)"
    using assms pctx nu k by (simp add: build_own_def)
  moreover have "realm_at m1 realm = Some r" using kzalloc_realm_at[OF k] assms(3) by simp
  ultimately show ?thesis using build_fail_at by blast
qed

lemma build_err:
  "build_snap_context n m realm = Some (Inr (m', rc)) \<Longrightarrow> rc \<noteq> 0 \<Longrightarrow>
   realm_at m realm = Some r \<Longrightarrow>
   rc = - ENOMEM \<and> realm_at m' realm = Some (r\<lparr>cached_context := None\<rparr>)"
proof (induction n arbitrary: realm m' rc r)
  case 0
  then show ?case by simp
next
  case (Suc n)
  from Suc.prems(1) show ?case
  proof (cases rule: build_Suc_cases)
    case direct
    then show ?thesis using build_own_err Suc.prems(2,3) by blast
  next
    case (climb r0 p pr m1 e)
    have r0: "r0 = r" using climb(1) Suc.prems(3) by simp
    have at1: "realm_at m1 realm = Some r"
      using build_parent_leaves_child[OF climb(5) Suc.prems(3) climb(2)[unfolded r0] climb(3,4)] .
    show ?thesis
    proof (cases "e = 0")
      case True
      then show ?thesis using climb(6) build_own_err[OF _ Suc.prems(2) at1] by simp
    next
      case False
      have "e = - ENOMEM" using Suc.IH[OF climb(5) False climb(3)] by simp
      then show ?thesis using climb(6) False build_fail_at[OF _ at1] by auto
    qed
  qed
qed

text \<open>
  C8. When \<^verbatim>\<open>build_snap_context\<close> returns an error, the error is \<open>- ENOMEM\<close> (a failed
  allocation, for the realm or for an ancestor whose context had to be built first);
  the realm's cached context is cleared and its other fields are intact; the radix
  tree is unchanged and the realm still there; \<^verbatim>\<open>rebuild_snap_realms\<close> drops the error
  and goes on with the realm's children from that state; and a realm without cached
  context never passes the "unchanged" test, so the next attempt builds from scratch.
\<close>

theorem build_snap_context_alloc_failure:
  assumes "build_snap_context fuel mdsc realm = Some (Inr (mdsc', err))"
    and "err \<noteq> 0"
    and "realm_at mdsc realm = Some r"
  shows "err = - ENOMEM \<and>
         realm_at mdsc' realm = Some (r\<lparr>cached_context := None\<rparr>) \<and>
         snap_realms mdsc' = snap_realms mdsc \<and>
         rebuild_snap_realms (Suc fuel) mdsc realm = rebuild_children fuel mdsc' (children r) \<and>
         \<not> context_unchanged (r\<lparr>cached_context := None\<rparr>) pctx"
  using build_err[OF assms] build_index[OF assms(1)] assms(1)
  by (simp add: context_unchanged_def)


theorem build_snap_context_alloc_failure_witness:
  "\<exists>m'. build_snap_context 3 ex_forest_nomem 0 = Some (Inr (m', - ENOMEM)) \<and>
        realm_at m' 0 = Some (ex_root\<lparr>cached_context := None\<rparr>) \<and>
        snap_realms m' = snap_realms ex_forest_nomem \<and>
        rebuild_snap_realms 4 ex_forest_nomem 0 = rebuild_children 3 m' [1] \<and>
        (case returned (rebuild_snap_realms 4 ex_forest_nomem 0) of
           None \<Rightarrow> False
         | Some m \<Rightarrow> realm_context m 1 = Some \<lparr>sc_seq = 5, sc_snaps = [5, 2, 1]\<rparr>)"
proof -
  have "case build_snap_context 3 ex_forest_nomem 0 of
          Some (Inr (m', err)) \<Rightarrow> err = - ENOMEM | _ \<Rightarrow> False"
    by code_simp
  then obtain m' where run: "build_snap_context 3 ex_forest_nomem 0 = Some (Inr (m', - ENOMEM))"
    by (auto split: option.splits sum.splits)
  have ne: "- ENOMEM \<noteq> 0" by (simp add: ENOMEM_def)
  have at: "realm_at ex_forest_nomem 0 = Some ex_root"
    by (simp add: realm_at_def ex_forest_nomem_def ex_forest_def ex_mdsc_def)
  have later: "case returned (rebuild_snap_realms 4 ex_forest_nomem 0) of
           None \<Rightarrow> False
         | Some m \<Rightarrow> realm_context m 1 = Some \<lparr>sc_seq = 5, sc_snaps = [5, 2, 1]\<rparr>"
    by code_simp
  have ch: "children ex_root = [1]" by (simp add: ex_root_def zero_realm_def)
  from build_snap_context_alloc_failure[OF run ne at] run later show ?thesis
    by (simp add: ch)
qed

subsection \<open>At most one pending cap-snap\<close>

lemma one_pending_same: "inode_mem m' = inode_mem m \<Longrightarrow> one_pending m' = one_pending m"
  by (simp add: one_pending_def)

lemma one_pending_realms_only: "realms_only m m' \<Longrightarrow> one_pending m \<Longrightarrow> one_pending m'"
  by (simp add: one_pending_def realms_only_def)

lemma one_pending_set_realm: "one_pending (set_realm m a r) = one_pending m"
  by (simp add: one_pending_def set_realm_def)

lemma pending_update_same:
  fixes xs :: "cap_snap list"
  assumes "k < length xs" and "cs_writing c' = cs_writing (xs ! k)"
  shows "length (filter cs_writing (xs[k := c'])) = length (filter cs_writing xs)"
proof -
  have "map cs_writing (xs[k := c']) = map cs_writing xs"
    using assms by (simp add: map_update list_update_same_conv)
  then have "length (filter id (map cs_writing (xs[k := c']))) =
             length (filter id (map cs_writing xs))" by simp
  then show ?thesis by (simp add: filter_map o_def)
qed

lemma one_pending_finish:
  "ceph_finish_cap_snap m ci k = Inr (m', rc) \<Longrightarrow> one_pending m \<Longrightarrow> one_pending m'"
proof -
  assume a: "ceph_finish_cap_snap m ci k = Inr (m', rc)" "one_pending m"
  then obtain inode where i: "inode_mem m ci = Some inode" and k: "k < length (i_cap_snaps inode)"
    and w: "\<not> cs_writing (i_cap_snaps inode ! k)"
    by (auto simp: ceph_finish_cap_snap_def Let_def split: option.splits if_splits)
  define c' where "c' = (i_cap_snaps inode ! k)
                    \<lparr>cs_size := i_size inode, cs_mtime := i_mtime inode,
                     cs_atime := i_atime inode, cs_ctime := i_ctime inode,
                     cs_time_warp_seq := i_time_warp_seq inode\<rparr>"
  have im: "inode_mem m' = (inode_mem m)(ci \<mapsto> inode\<lparr>i_cap_snaps := (i_cap_snaps inode)[k := c']\<rparr>)"
    using a(1) i k w by (auto simp: ceph_finish_cap_snap_def Let_def c'_def split: if_splits)
  have "cs_writing c' = cs_writing (i_cap_snaps inode ! k)" by (simp add: c'_def)
  from pending_update_same[OF k this] have "pending_count (inode\<lparr>i_cap_snaps := (i_cap_snaps inode)[k := c']\<rparr>) =
        pending_count inode"
    by (auto simp: pending_count_def)
  then show "one_pending m'"
    using a(2) i unfolding one_pending_def im by auto
qed

lemma queue_pending_unchanged:
  assumes "ceph_queue_cap_snap ev m ci snapc = Inr m'"
    and "inode_mem m ci = Some inode" and "ceph_have_pending_cap_snap inode"
  shows "inode_mem m' = inode_mem m"
proof -
  obtain b m1 where k: "kzalloc m = (b, m1)" by (cases "kzalloc m")
  have "inode_mem m1 = inode_mem m" using k by (auto simp: kzalloc_def split: list.splits)
  then show ?thesis using assms k
    by (cases b) (auto simp: ceph_queue_cap_snap_def)
qed

lemma one_pending_queue:
  assumes "ceph_queue_cap_snap ev m ci snapc = Inr m'" and "one_pending m"
  shows "one_pending m'"
proof -
  obtain b m1 where k: "kzalloc m = (b, m1)" by (cases "kzalloc m")
  have im1: "inode_mem m1 = inode_mem m" using k by (auto simp: kzalloc_def split: list.splits)
  then have op1: "one_pending m1" using assms(2) by (simp add: one_pending_def)
  show ?thesis
  proof (cases b)
    case False
    then show ?thesis using assms(1) k op1 by (simp add: ceph_queue_cap_snap_def)
  next
    case True
    from assms(1) k True obtain inode where i: "inode_mem m1 ci = Some inode"
      by (auto simp: ceph_queue_cap_snap_def split: option.splits)
    show ?thesis
    proof (cases "ceph_have_pending_cap_snap inode")
      case True
      then show ?thesis using assms(1) k \<open>b\<close> i op1 by (simp add: ceph_queue_cap_snap_def)
    next
      case False
      then have none: "filter cs_writing (i_cap_snaps inode) = []"
        by (auto simp: ceph_have_pending_cap_snap_def list_ex_iff filter_empty_conv)
      from assms(1) k \<open>b\<close> i False obtain sc where sc: "snapc = Some sc"
        by (auto simp: ceph_queue_cap_snap_def split: option.splits)
      define capsnap where "capsnap = zero_cap_snap
                            \<lparr>cs_follows := sc_seq sc - 1, cs_context := Some sc,
                             cs_issued := caps_issued ev inode,
                             cs_dirty := i_wrbuffer_ref_head inode\<rparr>"
      define inode1 where "inode1 = inode\<lparr>i_wrbuffer_ref_head := 0,
                             i_cap_snaps := i_cap_snaps inode @ [capsnap]\<rparr>"
      define m2 where "m2 = m1\<lparr>inode_mem := (inode_mem m1)(ci \<mapsto> inode1)\<rparr>"
      have pc1: "pending_count inode1 \<le> 1"
        by (simp add: pending_count_def inode1_def none)
      have op2: "one_pending m2"
        using op1 pc1 by (auto simp: one_pending_def m2_def)
      show ?thesis
      proof (cases "caps_used ev inode AND CAP_WR ev \<noteq> 0")
        case True
        then have "m' = m2\<lparr>inode_mem := (inode_mem m2)
              (ci \<mapsto> inode1\<lparr>i_cap_snaps := i_cap_snaps inode @ [capsnap\<lparr>cs_writing := True\<rparr>]\<rparr>)\<rparr>"
          using assms(1) k \<open>b\<close> i False sc
          by (simp add: ceph_queue_cap_snap_def Let_def capsnap_def inode1_def m2_def)
        moreover have "pending_count (inode1\<lparr>i_cap_snaps :=
              i_cap_snaps inode @ [capsnap\<lparr>cs_writing := True\<rparr>]\<rparr>) \<le> 1"
          by (simp add: pending_count_def none)
        ultimately show ?thesis using op2 by (auto simp: one_pending_def)
      next
        case nw: False
        then obtain rc where "ceph_finish_cap_snap m2 ci (length (i_cap_snaps inode)) = Inr (m', rc)"
          using assms(1) k \<open>b\<close> i False sc
          by (auto simp: ceph_queue_cap_snap_def Let_def capsnap_def inode1_def m2_def
              split: sum.splits)
        then show ?thesis using op2 by (rule one_pending_finish)
      qed
    qed
  qed
qed

lemma one_pending_queue_all:
  "queue_cap_snaps ev m cis snapc = Inr m' \<Longrightarrow> one_pending m \<Longrightarrow> one_pending m'"
  by (induction cis arbitrary: m) (auto split: sum.splits dest: one_pending_queue)


lemma one_pending_trace_step:
  assumes "trace_step fuel ev m buf p e del first iv = Some (Inr (m', out))"
    and "one_pending m"
  shows "one_pending m'"
  using assms(1)
proof (cases rule: trace_step_cases)
  case bad
  then show ?thesis using assms(2) by simp
next
  case (nomem ri)
  then show ?thesis using assms(2) by (auto dest: realms_only_get one_pending_realms_only)
next
  case (run ri m1 realm r1 m2 m3)
  have "one_pending m1" using run(4) assms(2)
    by (auto dest: realms_only_get one_pending_realms_only)
  then have "one_pending m2"
    using run(6) by (auto simp: one_pending_set_realm split: option.splits)
  then have "one_pending m3"
    using run(7) by (auto simp: trace_queue_def split: option.splits if_splits
        dest: one_pending_queue_all)
  then show ?thesis using run(8) by (rule one_pending_realms_only[rotated])
qed

lemma one_pending_update_more:
  "update_snap_trace_more fuel ev m buf p e del first iv = Some (Inr (m', out)) \<Longrightarrow>
   one_pending m \<Longrightarrow> one_pending m'"
proof (induction fuel arbitrary: m p first iv)
  case 0
  then show ?case by simp
next
  case (Suc fuel)
  from Suc.prems(1) obtain m1 o1 where
    st: "trace_step fuel ev m buf p e del first iv = Some (Inr (m1, o1))"
    by (auto split: option.splits sum.splits prod.splits)
  note s1 = one_pending_trace_step[OF st Suc.prems(2)]
  show ?case
  proof (cases o1)
    case (Inl err)
    then show ?thesis using Suc.prems(1) st s1 by simp
  next
    case (Inr t)
    obtain p2 first1 iv1 where t: "t = (p2, first1, iv1)" by (cases t)
    show ?thesis
    proof (cases "p2 < e")
      case True
      then have "update_snap_trace_more fuel ev m1 buf p2 e del (Some first1) iv1 = Some (Inr (m', out))"
        using Suc.prems(1) st Inr t by simp
      from Suc.IH[OF this s1] show ?thesis .
    next
      case False
      then show ?thesis using Suc.prems(1) st Inr t s1 by simp
    qed
  qed
qed

lemma split_move_inodes_Cons_cases:
  assumes "split_move_inodes ev m buf si rp (i # rest) = Inr m'"
  obtains (skip) "split_move_inodes ev m buf si rp rest = Inr m'"
  | (move) ci old oldr m1 m2 where
      "del_snap_realm_item m ci old = Inr m1"
      "ceph_queue_cap_snap ev m1 ci (cached_context oldr) = Inr m2"
      "split_move_inodes ev m2 buf si rp rest = Inr m'"
      "realm_at m old = Some oldr"
  using assms
  by (auto split: option.splits if_splits sum.splits)

lemma one_pending_split_move_inodes:
  "split_move_inodes ev m buf si rp is = Inr m' \<Longrightarrow> one_pending m \<Longrightarrow> one_pending m'"
proof (induction "is" arbitrary: m)
  case Nil
  then show ?case by simp
next
  case (Cons i rest)
  from Cons.prems(1) show ?case
  proof (cases rule: split_move_inodes_Cons_cases)
    case skip
    then show ?thesis using Cons.IH Cons.prems(2) by blast
  next
    case (move ci old oldr m1 m2)
    have "one_pending m1"
      using move(1) Cons.prems(2)
      by (auto simp: del_snap_realm_item_def one_pending_set_realm split: option.splits)
    then have "one_pending m2" using move(2) by (rule one_pending_queue[rotated])
    then show ?thesis using Cons.IH[OF move(3)] by blast
  qed
qed

lemma split_move_realms_Cons_cases:
  assumes "split_move_realms m buf sr realm (i # rest) = Inr m'"
  obtains (nomem) m1 child_ino where "ceph_get_snap_realm m child_ino = Inr (m1, None)"
      "split_move_realms m1 buf sr realm rest = Inr m'"
  | (move) m1 child_ino child r m2 err m3 where
      "ceph_get_snap_realm m child_ino = Inr (m1, Some child)"
      "realm_at m1 realm = Some r"
      "adjust_snap_realm_parent m1 child (ino r) = Inr (m2, err)"
      "ceph_put_snap_realm m2 child = Inr m3"
      "split_move_realms m3 buf sr realm rest = Inr m'"
  using assms
  by (auto split: option.splits sum.splits prod.splits)

lemma realms_only_split_move_realms:
  "split_move_realms m buf sr realm is = Inr m' \<Longrightarrow> realms_only m m'"
proof (induction "is" arbitrary: m)
  case Nil
  then show ?case by (simp add: realms_only_refl)
next
  case (Cons i rest)
  from Cons.prems show ?case
  proof (cases rule: split_move_realms_Cons_cases)
    case (nomem m1 child_ino)
    then show ?thesis using Cons.IH realms_only_get by (blast intro: realms_only_trans)
  next
    case (move m1 child_ino child r m2 err m3)
    have "realms_only m m3"
      using realms_only_get[OF move(1)] realms_only_adjust[OF move(3)] realms_only_put[OF move(4)]
      by (blast intro: realms_only_trans)
    then show ?thesis using Cons.IH[OF move(5)] by (blast intro: realms_only_trans)
  qed
qed


lemma one_pending_handle_split:
  assumes "handle_split ev m buf p e h = Inr (m', out)" and "one_pending m"
  shows "one_pending m'"
proof (cases "p + 8 * sint (h_num_split_inos h) + 8 * sint (h_num_split_realms h) +
              sizeof_snap_realm > e")
  case True
  then show ?thesis using assms by (simp add: handle_split_def Let_def)
next
  case False
  from assms(1) False obtain m1 x where g: "ceph_get_snap_realm m (h_split h) = Inr (m1, x)"
    by (auto simp: handle_split_def Let_def split: sum.splits)
  have op1: "one_pending m1" using realms_only_get[OF g] assms(2) by (rule one_pending_realms_only)
  show ?thesis
  proof (cases x)
    case None
    then show ?thesis using assms(1) False g op1 by (simp add: handle_split_def Let_def)
  next
    case (Some realm)
    from assms(1) False g Some obtain m2 where
      a: "split_move_inodes ev m1 buf p
            (p + 8 * sint (h_num_split_inos h) + 8 * sint (h_num_split_realms h))
            [0..<nat (sint (h_num_split_inos h))] = Inr m2" and
      b: "split_move_realms m2 buf (p + 8 * sint (h_num_split_inos h)) realm
            [0..<nat (sint (h_num_split_realms h))] = Inr m'"
      by (auto simp: handle_split_def Let_def split: sum.splits)
    have "one_pending m2" using one_pending_split_move_inodes[OF a op1] .
    then show ?thesis using realms_only_split_move_realms[OF b] by (rule one_pending_realms_only[rotated])
  qed
qed

lemma split_attach_Cons_cases:
  assumes "split_attach_inodes ev m buf si realm (i # rest) = Inr m'"
  obtains (skip) "split_attach_inodes ev m buf si realm rest = Inr m'"
  | (attach) ci inode old m1 r where
      "inode_mem m ci = Some inode"
      "ceph_put_snap_realm m old = Inr m1"
      "realm_at m1 realm = Some r"
      "split_attach_inodes ev
         ((set_realm m1 realm (r\<lparr>inodes_with_caps := ci # inodes_with_caps r, nref := nref r + 1\<rparr>))
            \<lparr>inode_mem := (inode_mem (set_realm m1 realm
                 (r\<lparr>inodes_with_caps := ci # inodes_with_caps r, nref := nref r + 1\<rparr>)))
               (ci \<mapsto> inode\<lparr>i_snap_realm := Some realm\<rparr>)\<rparr>)
         buf si realm rest = Inr m'"
  using assms
  by (auto simp: Let_def split: option.splits sum.splits)

lemma one_pending_split_attach:
  "split_attach_inodes ev m buf si realm is = Inr m' \<Longrightarrow> one_pending m \<Longrightarrow> one_pending m'"
proof (induction "is" arbitrary: m)
  case Nil
  then show ?case by simp
next
  case (Cons i rest)
  from Cons.prems(1) show ?case
  proof (cases rule: split_attach_Cons_cases)
    case skip
    then show ?thesis using Cons.IH Cons.prems(2) by blast
  next
    case (attach ci inode old m1 r)
    have im: "inode_mem m1 = inode_mem m"
      using realms_only_put[OF attach(2)] by (simp add: realms_only_def)
    have "one_pending m1" using realms_only_put[OF attach(2)] Cons.prems(2)
      by (rule one_pending_realms_only)
    moreover have "pending_count (inode\<lparr>i_snap_realm := Some realm\<rparr>) \<le> 1"
      using Cons.prems(2) attach(1) by (auto simp: one_pending_def pending_count_def)
    ultimately have "one_pending
         ((set_realm m1 realm (r\<lparr>inodes_with_caps := ci # inodes_with_caps r, nref := nref r + 1\<rparr>))
            \<lparr>inode_mem := (inode_mem (set_realm m1 realm
                 (r\<lparr>inodes_with_caps := ci # inodes_with_caps r, nref := nref r + 1\<rparr>)))
               (ci \<mapsto> inode\<lparr>i_snap_realm := Some realm\<rparr>)\<rparr>)"
      by (auto simp: one_pending_def set_realm_def)
    then show ?thesis using Cons.IH[OF attach(4)] by blast
  qed
qed

lemma one_pending_flush:
  assumes "flush_keeps_one_pending ev"
  shows "flush_snaps fuel ev m = Some (Inr m') \<Longrightarrow> one_pending m \<Longrightarrow> one_pending m'"
proof (induction fuel arbitrary: m)
  case 0
  then show ?case by simp
next
  case (Suc fuel)
  show ?case
  proof (cases "snap_flush_list m")
    case Nil
    then show ?thesis using Suc.prems by simp
  next
    case (Cons ci rest)
    from Suc.prems(1) Cons obtain m1 where
      f: "flush_inode_snaps ev m ci = Inr m1" and r: "flush_snaps fuel ev m1 = Some (Inr m')"
      by (auto split: sum.splits)
    have "one_pending m1"
      using assms Suc.prems(2) f unfolding flush_keeps_one_pending_def by blast
    from Suc.IH[OF r this] show ?thesis .
  qed
qed


lemma one_pending_handle_snap:
  assumes run: "ceph_handle_snap fuel ev m msg = Some (Inr m')"
    and inv: "one_pending m"
    and fl: "flush_keeps_one_pending ev"
  shows "one_pending m'"
proof (cases "hdr_src_type msg \<noteq> ENTITY_TYPE_MDS ev \<or> int (length (front msg)) < sizeof_snap_head")
  case True
  have "m' = m"
  proof (cases "hdr_src_type msg \<noteq> ENTITY_TYPE_MDS ev")
    case True
    then show ?thesis using run by (simp add: ceph_handle_snap_def Let_def)
  next
    case False
    then show ?thesis using run True by (simp add: ceph_handle_snap_def Let_def)
  qed
  then show ?thesis using inv by simp
next
  case False
  then have mds: "hdr_src_type msg = ENTITY_TYPE_MDS ev"
    and len: "\<not> int (length (front msg)) < sizeof_snap_head" by auto
  from run mds len obtain h where h: "decode_snap_head (front msg) 0 = Some h"
    by (auto simp: ceph_handle_snap_def Let_def split: option.splits)
  show ?thesis
  proof (cases "sessions m (hdr_src_num msg)")
    case None
    then show ?thesis using run inv mds len h by (simp add: ceph_handle_snap_def Let_def)
  next
    case (Some session)
    define m1 where "m1 = m\<lparr>sessions := (sessions m)
        (hdr_src_num msg \<mapsto> session\<lparr>s_seq := s_seq session + 1\<rparr>)\<rparr>"
    have op1: "one_pending m1" using inv by (simp add: one_pending_def m1_def)
    define sp where "sp = (if h_op h = SNAP_OP_SPLIT ev
                           then handle_split ev m1 (front msg) sizeof_snap_head
                                  (int (length (front msg))) h
                           else Inr (m1, Inr sizeof_snap_head))"
    have unf: "ceph_handle_snap fuel ev m msg =
        (case sp of
           Inl f \<Rightarrow> Some (Inl f)
         | Inr (mdsc2, Inl u) \<Rightarrow> Some (Inr mdsc2)
         | Inr (mdsc2, Inr p) \<Rightarrow>
             (case ceph_update_snap_trace fuel ev mdsc2 (front msg) p (int (length (front msg)))
                     (h_op h = SNAP_OP_DESTROY ev) of
                None \<Rightarrow> None
              | Some (Inl f) \<Rightarrow> Some (Inl f)
              | Some (Inr (mdsc3, Inl err)) \<Rightarrow> Some (Inr mdsc3)
              | Some (Inr (mdsc3, Inr realm)) \<Rightarrow>
                  (case (if h_op h = SNAP_OP_SPLIT ev
                         then
                           (case split_attach_inodes ev mdsc3 (front msg) sizeof_snap_head
                                   realm [0..<nat (sint (h_num_split_inos h))] of
                              Inl f \<Rightarrow> Inl f
                            | Inr mdsc4 \<Rightarrow> ceph_put_snap_realm mdsc4 realm)
                         else Inr mdsc3) of
                     Inl f \<Rightarrow> Some (Inl f)
                   | Inr mdsc5 \<Rightarrow>
                       (case ceph_put_snap_realm mdsc5 realm of
                          Inl f \<Rightarrow> Some (Inl f)
                        | Inr mdsc6 \<Rightarrow> flush_snaps fuel ev mdsc6))))"
      using mds len h Some by (simp add: ceph_handle_snap_def Let_def m1_def sp_def)
    from run unf obtain m2 o2 where sp2: "sp = Inr (m2, o2)"
      by (cases sp) auto
    have op2: "one_pending m2"
      using sp2 op1 unfolding sp_def
      by (auto split: if_splits dest: one_pending_handle_split)
    show ?thesis
    proof (cases o2)
      case (Inl u)
      then show ?thesis using run unf sp2 op2 by simp
    next
      case (Inr p)
      from run unf sp2 Inr obtain m3 o3 where
        tr: "ceph_update_snap_trace fuel ev m2 (front msg) p (int (length (front msg)))
               (h_op h = SNAP_OP_DESTROY ev) = Some (Inr (m3, o3))"
        by (auto split: option.splits sum.splits)
      have op3: "one_pending m3"
        using tr op2 by (auto simp: ceph_update_snap_trace_def dest: one_pending_update_more)
      show ?thesis
      proof (cases o3)
        case (Inl err)
        then show ?thesis using run unf sp2 Inr tr op3 by simp
      next
        case realm: (Inr realm)
        from run unf sp2 Inr tr realm obtain m5 m6 where
          at: "(if h_op h = SNAP_OP_SPLIT ev
                then (case split_attach_inodes ev m3 (front msg) sizeof_snap_head
                             realm [0..<nat (sint (h_num_split_inos h))] of
                        Inl f \<Rightarrow> Inl f
                      | Inr mdsc4 \<Rightarrow> ceph_put_snap_realm mdsc4 realm)
                else Inr m3) = Inr m5"
          and pt: "ceph_put_snap_realm m5 realm = Inr m6"
          and fs: "flush_snaps fuel ev m6 = Some (Inr m')"
          by (auto split: sum.splits)
        have "one_pending m5"
          using at op3
          by (auto split: if_splits sum.splits
              dest!: one_pending_split_attach realms_only_put
              intro: one_pending_realms_only)
        then have "one_pending m6"
          using realms_only_put[OF pt] by (rule one_pending_realms_only[rotated])
        then show ?thesis using one_pending_flush[OF fl fs] by blast
      qed
    qed
  qed
qed


text \<open>
  C5. No inode has more than one pending cap-snap, and every operation of snap.c keeps
  it so: \<^verbatim>\<open>ceph_queue_cap_snap\<close>, which on an inode that has a pending cap-snap leaves
  all inodes as they are (it adds none), \<^verbatim>\<open>__ceph_finish_cap_snap\<close>,
  \<^verbatim>\<open>ceph_update_snap_trace\<close>, and \<^verbatim>\<open>ceph_handle_snap\<close> as long as
  \<^verbatim>\<open>__ceph_flush_snaps\<close>, which it calls at its end, keeps it.
\<close>

theorem at_most_one_pending_cap_snap:
  assumes "one_pending mdsc"
  shows "(ceph_queue_cap_snap ev mdsc ci snapc = Inr mdsc1 \<longrightarrow>
            one_pending mdsc1 \<and>
            (\<forall>inode. inode_mem mdsc ci = Some inode \<and> ceph_have_pending_cap_snap inode \<longrightarrow>
                     inode_mem mdsc1 = inode_mem mdsc)) \<and>
         (ceph_finish_cap_snap mdsc ci k = Inr (mdsc2, rc) \<longrightarrow> one_pending mdsc2) \<and>
         (ceph_update_snap_trace fuel ev mdsc buf p e deletion = Some (Inr (mdsc3, res)) \<longrightarrow>
            one_pending mdsc3) \<and>
         (flush_keeps_one_pending ev \<and> ceph_handle_snap fuel ev mdsc msg = Some (Inr mdsc4) \<longrightarrow>
            one_pending mdsc4)"
  using assms
  by (auto simp: ceph_update_snap_trace_def
      dest: one_pending_queue queue_pending_unchanged one_pending_finish
            one_pending_update_more one_pending_handle_snap)

theorem at_most_one_pending_cap_snap_witness:
  "one_pending ex_mdsc_pending \<and>
   ceph_have_pending_cap_snap (ex_inode\<lparr>i_cap_snaps := [zero_cap_snap\<lparr>cs_writing := True\<rparr>]\<rparr>) \<and>
   (\<exists>m'. ceph_queue_cap_snap ex_env ex_mdsc_pending 0 (Some \<lparr>sc_seq = 9, sc_snaps = []\<rparr>) = Inr m' \<and>
         one_pending m' \<and> inode_mem m' = inode_mem ex_mdsc_pending) \<and>
   one_pending ex_live \<and> flush_keeps_one_pending ex_env \<and>
   (\<exists>m'. ceph_handle_snap 6 ex_env ex_live ex_msg_split = Some (Inr m') \<and> one_pending m')"
proof -
  have inv: "one_pending ex_mdsc_pending"
    by (auto simp: one_pending_def pending_count_def ex_mdsc_pending_def ex_mdsc_def
        split: if_splits)
  have pend: "ceph_have_pending_cap_snap
      (ex_inode\<lparr>i_cap_snaps := [zero_cap_snap\<lparr>cs_writing := True\<rparr>]\<rparr>)"
    by (simp add: ceph_have_pending_cap_snap_def)
  have at: "inode_mem ex_mdsc_pending 0 =
      Some (ex_inode\<lparr>i_cap_snaps := [zero_cap_snap\<lparr>cs_writing := True\<rparr>]\<rparr>)"
    by (simp add: ex_mdsc_pending_def ex_mdsc_def)
  have "case ceph_queue_cap_snap ex_env ex_mdsc_pending 0 (Some \<lparr>sc_seq = 9, sc_snaps = []\<rparr>) of
          Inr m' \<Rightarrow> True | Inl f \<Rightarrow> False"
    by code_simp
  then obtain m1 where q:
    "ceph_queue_cap_snap ex_env ex_mdsc_pending 0 (Some \<lparr>sc_seq = 9, sc_snaps = []\<rparr>) = Inr m1"
    by (auto split: sum.splits)
  have inv2: "one_pending ex_live"
    by (auto simp: one_pending_def pending_count_def ex_live_def ex_inode_def split: if_splits)
  have fl: "flush_keeps_one_pending ex_env"
    by (auto simp: flush_keeps_one_pending_def one_pending_def ex_env_def)
  have "case ceph_handle_snap 6 ex_env ex_live ex_msg_split of
          Some (Inr m') \<Rightarrow> True | _ \<Rightarrow> False"
    by code_simp
  then obtain m4 where hs: "ceph_handle_snap 6 ex_env ex_live ex_msg_split = Some (Inr m4)"
    by (auto split: option.splits sum.splits)
  from at_most_one_pending_cap_snap[OF inv, of ex_env 0 "Some \<lparr>sc_seq = 9, sc_snaps = []\<rparr>" m1]
    q at pend
  have a: "one_pending m1 \<and> inode_mem m1 = inode_mem ex_mdsc_pending" by simp
  from at_most_one_pending_cap_snap[OF inv2, of ex_env _ _ _ _ _ _ 6 _ _ _ _ _ _ ex_msg_split m4]
    fl hs
  have b: "one_pending m4" by simp
  from a b q hs inv inv2 fl pend show ?thesis by blast
qed

end
